theory Spec2Isabelle
  imports Main "HOL-Library.Multiset"
begin


section \<open>Errors\<close>

text \<open>
  The exceptions that the modelled code of \<^verbatim>\<open>kinescope/downloader.py\<close> can raise: the
  built-in ones raised by indexing, subscripting and conversions, and the ones of
  \<^verbatim>\<open>kinescope.exceptions\<close> raised by the \<^verbatim>\<open>raise\<close> statements.
\<close>

datatype py_error =
    IndexError
  | KeyError
  | TypeError
  | ValueError
  | AttributeError
  | Base64Error
  | RequestError
  | FileNotFoundError
  | IsADirectoryError
  | ShutilError
  | UnsupportedEncryption
  | InvalidResolution
  | SegmentDownloadError string
  | FFmpegNotFoundError

section \<open>The manifest\<close>

text \<open>
  Modelled from the spec: the classes of the \<^verbatim>\<open>mpegdash\<close> package (the parsed manifest) are
  not part of the repository. The records keep the attribute names that the code reads.
  An attribute that a manifest may leave out is an option (\<^verbatim>\<open>None\<close> in Python); a child
  sequence is a list, and an absent sequence is the empty list.
\<close>

record segment_url =
  media :: "string option"

record segment_list =
  segment_urls :: "segment_url list"

record base_url =
  base_url_value :: string

record representation =
  width :: "int option"
  height :: "int option"
  base_urls :: "base_url list"
  segment_lists :: "segment_list list"

record content_protection =
  cenc_default_kid :: "string option"

record adaptation_set =
  mime_type :: string
  content_protections :: "content_protection list"
  representations :: "representation list"

record period =
  adaptation_sets :: "adaptation_set list"

record mpegdash =
  periods :: "period list"

text \<open>A resolution is the tuple \<^verbatim>\<open>(r.width, r.height)\<close>.\<close>

type_synonym resolution = "int option \<times> int option"

definition resolution_of :: "representation \<Rightarrow> resolution" where
  "resolution_of r = (width r, height r)"

text \<open>Python truth value of \<^verbatim>\<open>r.height\<close>: \<^verbatim>\<open>None\<close> and \<^verbatim>\<open>0\<close> are false.\<close>

definition truthy_int :: "int option \<Rightarrow> bool" where
  "truthy_int h = (case h of None \<Rightarrow> False | Some n \<Rightarrow> n \<noteq> 0)"

section \<open>\<^verbatim>\<open>get_resolutions\<close>\<close>

text \<open>
  \<^verbatim>\<open>sorted(adaptation_set.representations, key=lambda r: r.height)\<close>: a stable sort on the
  heights. Comparing \<^verbatim>\<open>None\<close> with anything raises \<^verbatim>\<open>TypeError\<close>; a list of fewer than two
  elements is returned without any comparison.
\<close>

definition height_key :: "representation \<Rightarrow> int" where
  "height_key r = (case height r of None \<Rightarrow> 0 | Some h \<Rightarrow> h)"

definition sorted_by_height :: "representation list \<Rightarrow> py_error + representation list" where
  "sorted_by_height rs =
     (if 2 \<le> length rs \<and> (\<exists>r \<in> set rs. height r = None) then Inl TypeError
      else Inr (sort_key height_key rs))"

text \<open>
  The loop of \<^verbatim>\<open>get_resolutions\<close> over \<^verbatim>\<open>periods[0].adaptation_sets\<close>. Falling out of the
  loop returns \<^verbatim>\<open>None\<close>.
\<close>

fun get_resolutions_loop :: "adaptation_set list \<Rightarrow> py_error + resolution list option" where
  "get_resolutions_loop [] = Inr None"
| "get_resolutions_loop (a # as) =
     (case representations a of
        [] \<Rightarrow> Inl IndexError
      | r0 # _ \<Rightarrow>
          if truthy_int (height r0) then
            (case sorted_by_height (representations a) of
               Inl e \<Rightarrow> Inl e
             | Inr rs \<Rightarrow> Inr (Some (map resolution_of rs)))
          else get_resolutions_loop as)"

definition get_resolutions :: "mpegdash \<Rightarrow> py_error + resolution list option" where
  "get_resolutions m =
     (case periods m of
        [] \<Rightarrow> Inl IndexError
      | p # _ \<Rightarrow> get_resolutions_loop (adaptation_sets p))"

section \<open>\<^verbatim>\<open>_get_segments_urls\<close>\<close>

text \<open>\<^verbatim>\<open>list.index\<close>: the first position of the value, \<^verbatim>\<open>ValueError\<close> when it is absent.\<close>

fun list_index :: "'a list \<Rightarrow> 'a \<Rightarrow> py_error + nat" where
  "list_index [] v = Inl ValueError"
| "list_index (x # xs) v =
     (if x = v then Inr 0
      else (case list_index xs v of Inl e \<Rightarrow> Inl e | Inr i \<Rightarrow> Inr (Suc i)))"

text \<open>
  The representation that one adaptation set contributes:
  \<^verbatim>\<open>idx = resolutions.index(resolution) if adaptation_set.representations[0].height else 0\<close>.
\<close>

definition select_representation :: "adaptation_set \<Rightarrow> resolution \<Rightarrow> py_error + representation" where
  "select_representation a res =
     (case representations a of
        [] \<Rightarrow> Inl IndexError
      | r0 # _ \<Rightarrow>
          if truthy_int (height r0) then
            (case list_index (map resolution_of (representations a)) res of
               Inl e \<Rightarrow> Inl e
             | Inr idx \<Rightarrow> Inr (representations a ! idx))
          else Inr r0)"

text \<open>
  \<^verbatim>\<open>[base_url + (segment_url.media or '') for segment_url in ... if segment_url.media]\<close>:
  a segment whose \<^verbatim>\<open>media\<close> is \<^verbatim>\<open>None\<close> or the empty string is left out.
\<close>

definition media_fragments :: "segment_url list \<Rightarrow> string list" where
  "media_fragments ss =
     concat (map (\<lambda>s. case media s of None \<Rightarrow> [] | Some f \<Rightarrow> if f = [] then [] else [f]) ss)"

definition representation_urls :: "representation \<Rightarrow> py_error + string list" where
  "representation_urls r =
     (case base_urls r of
        [] \<Rightarrow> Inl IndexError
      | b # _ \<Rightarrow>
          (case segment_lists r of
             [] \<Rightarrow> Inl IndexError
           | sl # _ \<Rightarrow> Inr (map (\<lambda>f. base_url_value b @ f) (media_fragments (segment_urls sl)))))"

text \<open>The body of the loop, and the loop that fills the dictionary \<^verbatim>\<open>result\<close>.\<close>

fun get_segments_urls_loop ::
  "adaptation_set list \<Rightarrow> resolution \<Rightarrow> (string \<rightharpoonup> string list) \<Rightarrow>
     py_error + (string \<rightharpoonup> string list)" where
  "get_segments_urls_loop [] res result = Inr result"
| "get_segments_urls_loop (a # as) res result =
     (case select_representation a res of
        Inl e \<Rightarrow> Inl e
      | Inr r \<Rightarrow>
          (case representation_urls r of
             Inl e \<Rightarrow> Inl e
           | Inr urls \<Rightarrow> get_segments_urls_loop as res (result(mime_type a \<mapsto> urls))))"

text \<open>The \<^verbatim>\<open>try\<close> block: a \<^verbatim>\<open>ValueError\<close> raised inside becomes \<^verbatim>\<open>InvalidResolution\<close>.\<close>

definition get_segments_urls ::
  "mpegdash \<Rightarrow> resolution \<Rightarrow> py_error + (string \<rightharpoonup> string list)" where
  "get_segments_urls m res =
     (case (case periods m of
              [] \<Rightarrow> Inl IndexError
            | p # _ \<Rightarrow> get_segments_urls_loop (adaptation_sets p) res Map.empty) of
        Inl ValueError \<Rightarrow> Inl InvalidResolution
      | Inl e \<Rightarrow> Inl e
      | Inr result \<Rightarrow> Inr result)"

section \<open>Bytes, hexadecimal and Base64\<close>

text \<open>
  The functions of Python's standard library that \<^verbatim>\<open>_get_license_key\<close> calls:
  \<^verbatim>\<open>bytes.fromhex\<close>, \<^verbatim>\<open>bytes.hex\<close>, \<^verbatim>\<open>base64.b64encode\<close> and \<^verbatim>\<open>base64.b64decode\<close>.
  A byte is a natural number below 256.
\<close>

type_synonym byte = nat

definition b64_alphabet :: string where
  "b64_alphabet = ''ABCDEFGHIJKLMNOPQRSTUVWXYZabcdefghijklmnopqrstuvwxyz0123456789+/''"

fun position :: "'a list \<Rightarrow> 'a \<Rightarrow> nat option" where
  "position [] c = None"
| "position (x # xs) c = (if x = c then Some 0 else map_option Suc (position xs c))"

definition b64_value :: "char \<Rightarrow> nat option" where
  "b64_value c = position b64_alphabet c"

definition b64_char :: "nat \<Rightarrow> char" where
  "b64_char n = b64_alphabet ! n"

text \<open>
  \<^verbatim>\<open>binascii.a2b_base64\<close> in its default, non-strict mode, which is what
  \<^verbatim>\<open>b64decode(s)\<close> runs: a character outside the alphabet is skipped; a pad character
  ends the input once the open group of two or three digits has seen enough pad characters in a
  row, and is skipped otherwise; a group left open at the end of the input is an error.
  The state is the position in the group of four (\<open>quad_pos\<close>), the bits left over from the
  last digit (\<open>leftchar\<close>), the count of pad characters since the last digit (\<open>pads\<close>) and
  the bytes written. The shifts and masks of the C code are written arithmetically:
  \<open>(leftchar << 2) | (v >> 4)\<close> is \<open>leftchar * 4 + v div 16\<close>, and so on.
\<close>

fun a2b_base64_loop :: "nat \<Rightarrow> nat \<Rightarrow> nat \<Rightarrow> byte list \<Rightarrow> string \<Rightarrow> py_error + byte list" where
  "a2b_base64_loop quad_pos leftchar pads out [] =
     (if quad_pos \<noteq> 0 then Inl Base64Error else Inr out)"
| "a2b_base64_loop quad_pos leftchar pads out (c # cs) =
     (if c = CHR ''='' then
        (if 2 \<le> quad_pos \<and> 4 \<le> quad_pos + (pads + 1) then Inr out
         else a2b_base64_loop quad_pos leftchar (if 2 \<le> quad_pos then pads + 1 else pads) out cs)
      else
        (case b64_value c of
           None \<Rightarrow> a2b_base64_loop quad_pos leftchar pads out cs
         | Some v \<Rightarrow>
             if quad_pos = 0 then a2b_base64_loop 1 v 0 out cs
             else if quad_pos = 1 then
               a2b_base64_loop 2 (v mod 16) 0 (out @ [leftchar * 4 + v div 16]) cs
             else if quad_pos = 2 then
               a2b_base64_loop 3 (v mod 4) 0 (out @ [leftchar * 16 + v div 4]) cs
             else a2b_base64_loop 0 0 0 (out @ [leftchar * 64 + v]) cs))"

text \<open>
  \<^verbatim>\<open>b64decode\<close> of a \<^verbatim>\<open>str\<close> first encodes it as ASCII and raises \<^verbatim>\<open>ValueError\<close> when that
  fails.
\<close>

definition b64decode :: "string \<Rightarrow> py_error + byte list" where
  "b64decode s =
     (if \<exists>c \<in> set s. (128::nat) \<le> of_char c then Inl ValueError
      else a2b_base64_loop 0 0 0 [] s)"

fun b64encode :: "byte list \<Rightarrow> string" where
  "b64encode [] = []"
| "b64encode [a] = [b64_char (a div 4), b64_char (a mod 4 * 16), CHR ''='', CHR ''='']"
| "b64encode [a, b] =
     [b64_char (a div 4), b64_char (a mod 4 * 16 + b div 16), b64_char (b mod 16 * 4), CHR ''='']"
| "b64encode (a # b # c # bs) =
     [b64_char (a div 4), b64_char (a mod 4 * 16 + b div 16),
      b64_char (b mod 16 * 4 + c div 64), b64_char (c mod 64)] @ b64encode bs"

text \<open>
  \<^verbatim>\<open>bytes.fromhex\<close>: white space between two bytes is skipped, every byte is two
  hexadecimal digits, anything else is a \<^verbatim>\<open>ValueError\<close>.
\<close>

definition hex_digit_value :: "char \<Rightarrow> nat option" where
  "hex_digit_value c =
     (case position ''0123456789abcdef'' c of
        Some v \<Rightarrow> Some v
      | None \<Rightarrow> map_option (\<lambda>v. v + 10) (position ''ABCDEF'' c))"

definition py_isspace :: "char \<Rightarrow> bool" where
  "py_isspace c = (c \<in> set [CHR 0x20, CHR 0x09, CHR 0x0A, CHR 0x0B, CHR 0x0C, CHR 0x0D])"

fun bytes_fromhex :: "string \<Rightarrow> py_error + byte list" where
  "bytes_fromhex [] = Inr []"
| "bytes_fromhex (c # cs) =
     (if py_isspace c then bytes_fromhex cs
      else
        (case hex_digit_value c of
           None \<Rightarrow> Inl ValueError
         | Some hi \<Rightarrow>
             (case cs of
                [] \<Rightarrow> Inl ValueError
              | d # ds \<Rightarrow>
                  (case hex_digit_value d of
                     None \<Rightarrow> Inl ValueError
                   | Some lo \<Rightarrow>
                       (case bytes_fromhex ds of
                          Inl e \<Rightarrow> Inl e
                        | Inr bs \<Rightarrow> Inr ((hi * 16 + lo) # bs))))))"

definition hex_char :: "nat \<Rightarrow> char" where
  "hex_char n = ''0123456789abcdef'' ! n"

definition bytes_hex :: "byte list \<Rightarrow> string" where
  "bytes_hex bs = concat (map (\<lambda>b. [hex_char (b div 16), hex_char (b mod 16)]) bs)"

section \<open>\<^verbatim>\<open>_get_license_key\<close>\<close>

text \<open>
  The value that \<^verbatim>\<open>Response.json()\<close> returns, and the three operations that the code applies
  to it: subscripting with a string, subscripting with \<^verbatim>\<open>0\<close>, and \<^verbatim>\<open>+ '=='\<close>. Each raises
  what Python raises for the type of the value at hand. An object is the list of its items.
\<close>

datatype json = JNull | JBool bool | JNum int | JStr string | JArr "json list" | JObj "(string \<times> json) list"

definition getitem_key :: "json \<Rightarrow> string \<Rightarrow> py_error + json" where
  "getitem_key j key =
     (case j of
        JObj items \<Rightarrow> (case map_of items key of None \<Rightarrow> Inl KeyError | Some v \<Rightarrow> Inr v)
      | _ \<Rightarrow> Inl TypeError)"

definition getitem_0 :: "json \<Rightarrow> py_error + json" where
  "getitem_0 j =
     (case j of
        JArr xs \<Rightarrow> (case xs of [] \<Rightarrow> Inl IndexError | x # _ \<Rightarrow> Inr x)
      | JStr s \<Rightarrow> (case s of [] \<Rightarrow> Inl IndexError | c # _ \<Rightarrow> Inr (JStr [c]))
      | JObj items \<Rightarrow> Inl KeyError
      | _ \<Rightarrow> Inl TypeError)"

definition add_str :: "json \<Rightarrow> string \<Rightarrow> py_error + string" where
  "add_str j s = (case j of JStr k \<Rightarrow> Inr (k @ s) | _ \<Rightarrow> Inl TypeError)"

text \<open>\<^verbatim>\<open>b64decode(response['keys'][0]['k'] + '==').hex()\<close>\<close>

definition response_key :: "json \<Rightarrow> py_error + string" where
  "response_key response =
     (case getitem_key response ''keys'' of
        Inl e \<Rightarrow> Inl e
      | Inr keys \<Rightarrow>
          (case getitem_0 keys of
             Inl e \<Rightarrow> Inl e
           | Inr key0 \<Rightarrow>
               (case getitem_key key0 ''k'' of
                  Inl e \<Rightarrow> Inl e
                | Inr k \<Rightarrow>
                    (case add_str k ''=='' of
                       Inl e \<Rightarrow> Inl e
                     | Inr padded \<Rightarrow>
                         (case b64decode padded of
                            Inl e \<Rightarrow> Inl e
                          | Inr raw \<Rightarrow> Inr (bytes_hex raw))))))"

text \<open>
  The entry of \<^verbatim>\<open>kids\<close> in the request body:
  \<^verbatim>\<open>b64encode(bytes.fromhex(kid.replace('-', ''))).decode().replace('=', '')\<close>.
\<close>

definition request_kid :: "content_protection \<Rightarrow> py_error + string" where
  "request_kid cp =
     (case cenc_default_kid cp of
        None \<Rightarrow> Inl AttributeError
      | Some kid \<Rightarrow>
          (case bytes_fromhex (filter (\<lambda>c. c \<noteq> CHR ''-'') kid) of
             Inl e \<Rightarrow> Inl e
           | Inr raw \<Rightarrow> Inr (filter (\<lambda>c. c \<noteq> CHR ''='') (b64encode raw))))"

text \<open>
  The license endpoint is the parameter \<open>license_post\<close>: it maps the \<^verbatim>\<open>kids\<close> entry of the
  request to the decoded JSON body of the response, or to the exception that the request or
  the decoding raises. The whole expression sits in a \<^verbatim>\<open>try\<close> whose handler turns
  \<^verbatim>\<open>KeyError\<close>, and nothing else, into \<^verbatim>\<open>UnsupportedEncryption\<close>.
\<close>

definition get_license_key ::
  "(string \<Rightarrow> py_error + json) \<Rightarrow> mpegdash \<Rightarrow> py_error + string option" where
  "get_license_key license_post m =
     (case (case periods m of
              [] \<Rightarrow> Inl IndexError
            | p # _ \<Rightarrow>
                (case adaptation_sets p of
                   [] \<Rightarrow> Inl IndexError
                 | a # _ \<Rightarrow>
                     (case content_protections a of
                        [] \<Rightarrow> Inr None
                      | cp # _ \<Rightarrow>
                          (case request_kid cp of
                             Inl e \<Rightarrow> Inl e
                           | Inr kid \<Rightarrow>
                               (case license_post kid of
                                  Inl e \<Rightarrow> Inl e
                                | Inr response \<Rightarrow>
                                    (case response_key response of
                                       Inl e \<Rightarrow> Inl e
                                     | Inr key \<Rightarrow> Inr (Some key))))))) of
        Inl KeyError \<Rightarrow> Inl UnsupportedEncryption
      | Inl e \<Rightarrow> Inl e
      | Inr key \<Rightarrow> Inr key)"

section \<open>Paths and the file system\<close>

text \<open>
  A \<^verbatim>\<open>pathlib.Path\<close> is the list of its components, the last one being its \<^verbatim>\<open>name\<close>; the
  empty list is the path \<^verbatim>\<open>.\<close>, whose name is empty.
\<close>

type_synonym path = "string list"

text \<open>
  \<^verbatim>\<open>PurePath.suffix\<close>: the part of the name from its last dot on, when that dot is neither
  the first nor the last character of the name; empty otherwise.
\<close>

definition py_suffix :: "string \<Rightarrow> string" where
  "py_suffix name =
     (let after = rev (takeWhile (\<lambda>c. c \<noteq> CHR ''.'') (rev name))
      in if CHR ''.'' \<in> set name \<and> after \<noteq> [] \<and> length after + 1 < length name
         then CHR ''.'' # after else [])"

text \<open>
  \<^verbatim>\<open>PurePath.with_suffix\<close>: \<^verbatim>\<open>ValueError\<close> for a path with an empty name; the old suffix
  is cut off the name and the new one appended. (The suffixes passed by the code are the constants
  \<^verbatim>\<open>.aac\<close>, \<^verbatim>\<open>.mp4\<close> and \<^verbatim>\<open>.aac.enc\<close>, \<^verbatim>\<open>.mp4.enc\<close>, which are valid suffixes.)
\<close>

definition with_suffix :: "path \<Rightarrow> string \<Rightarrow> py_error + path" where
  "with_suffix p suffix =
     (if p = [] then Inl ValueError
      else
        let name = last p;
            stem = take (length name - length (py_suffix name)) name
        in Inr (butlast p @ [stem @ suffix]))"

text \<open>
  \<^verbatim>\<open>Path(f'{tmp_base_path}_{type}{suffix}')\<close>: text appended to the string of a path goes to its
  last component; the string of the empty path is \<^verbatim>\<open>.\<close>.
\<close>

definition append_to_name :: "path \<Rightarrow> string \<Rightarrow> path" where
  "append_to_name p s = (if p = [] then [''.'' @ s] else butlast p @ [last p @ s])"

text \<open>
  The world outside the program: the files with their contents, the directories, the HTTP
  exchanges made for segments (the URL requested and what came back), and the external
  programs run so far.
\<close>

datatype response = Content "byte list" | ChunkedEncodingError | RequestFailure

datatype process =
    Mp4decrypt path path string
  | Ffmpeg "path list" path

record world =
  files :: "path \<rightharpoonup> byte list"
  dirs :: "path list"
  http_log :: "(string \<times> response) list"
  processes :: "process list"

text \<open>
  What the program cannot decide itself is a parameter: the server (the response to a
  \<^verbatim>\<open>GET\<close>, which may depend on all earlier exchanges), the license endpoint, the result of
  \<^verbatim>\<open>_fetch_mpd_master\<close> (the manifest endpoint and \<^verbatim>\<open>MPEGDASHParser\<close>), and the two
  executables. An executable that is
  not installed is \<open>None\<close>; one that is installed maps its inputs to the contents of the file
  it writes, or to \<open>None\<close> when it fails without writing (its exit status is not inspected).
\<close>

record env =
  net :: "(string \<times> response) list \<Rightarrow> string \<Rightarrow> response"
  license_post :: "string \<Rightarrow> py_error + json"
  fetch_mpd_master :: "py_error + mpegdash"
  mp4decrypt :: "(string \<Rightarrow> byte list \<Rightarrow> byte list option) option"
  ffmpeg :: "(byte list list \<Rightarrow> byte list option) option"

text \<open>The attributes of a \<^verbatim>\<open>VideoDownloader\<close> that the modelled methods read.\<close>

record video_downloader =
  video_id :: string
  temp_path :: path
  mpd_master :: mpegdash
  audio_only :: bool

text \<open>\<^verbatim>\<open>Path.mkdir(parents=True, exist_ok=True)\<close>: the path and the paths above it.\<close>

definition parents_and_self :: "path \<Rightarrow> path list" where
  "parents_and_self p = map (\<lambda>n. take n p) [1..<Suc (length p)]"

definition mkdir_parents :: "path \<Rightarrow> world \<Rightarrow> world" where
  "mkdir_parents p w = w\<lparr>dirs := dirs w @ parents_and_self p\<rparr>"

text \<open>A path is inside a directory when the directory's components begin it.\<close>

definition inside :: "path \<Rightarrow> path \<Rightarrow> bool" where
  "inside p q = (take (length p) q = p)"

definition is_dir :: "world \<Rightarrow> path \<Rightarrow> bool" where
  "is_dir w p = (p = [] \<or> p \<in> set (dirs w))"

text \<open>
  \<^verbatim>\<open>open(filepath, 'wb')\<close>: a path that is a directory cannot be opened for writing
  (\<^verbatim>\<open>IsADirectoryError\<close>; the empty path is the current directory); the directory of the file
  must exist (\<^verbatim>\<open>FileNotFoundError\<close>); then the file is created or emptied.
\<close>

definition open_wb :: "path \<Rightarrow> world \<Rightarrow> py_error + world" where
  "open_wb p w =
     (if is_dir w p then Inl IsADirectoryError
      else if is_dir w (butlast p) then Inr (w\<lparr>files := (files w)(p \<mapsto> [])\<rparr>)
      else Inl FileNotFoundError)"

text \<open>Writing to the open file appends to what it holds.\<close>

definition file_content :: "world \<Rightarrow> path \<Rightarrow> byte list" where
  "file_content w p = (case files w p of None \<Rightarrow> [] | Some c \<Rightarrow> c)"

definition write_file :: "path \<Rightarrow> byte list \<Rightarrow> world \<Rightarrow> world" where
  "write_file p bs w = w\<lparr>files := (files w)(p \<mapsto> file_content w p @ bs)\<rparr>"

text \<open>
  \<^verbatim>\<open>shutil.move\<close> of a file: into the destination when that is a directory (refusing to
  replace what is there), onto the destination otherwise.
\<close>

definition move :: "path \<Rightarrow> path \<Rightarrow> world \<Rightarrow> (py_error + unit) \<times> world" where
  "move src dst w =
     (case files w src of
        None \<Rightarrow> (Inl FileNotFoundError, w)
      | Some content \<Rightarrow>
          if dst \<in> set (dirs w) then
            (if src = [] \<or> files w (dst @ [last src]) \<noteq> None \<or> dst @ [last src] \<in> set (dirs w)
             then (Inl ShutilError, w)
             else (Inr (), w\<lparr>files := ((files w)(src := None))(dst @ [last src] \<mapsto> content)\<rparr>))
          else (Inr (), w\<lparr>files := ((files w)(src := None))(dst \<mapsto> content)\<rparr>))"

text \<open>\<^verbatim>\<open>shutil.rmtree\<close>: the directory and everything below it goes.\<close>

definition rmtree :: "path \<Rightarrow> world \<Rightarrow> py_error + world" where
  "rmtree p w =
     (if p \<in> set (dirs w) then
        Inr (w\<lparr>files := (\<lambda>q. if inside p q then None else files w q),
              dirs := filter (\<lambda>q. \<not> inside p q) (dirs w)\<rparr>)
      else Inl FileNotFoundError)"

section \<open>\<^verbatim>\<open>_fetch_segment\<close> and \<^verbatim>\<open>_fetch_segments\<close>\<close>

text \<open>
  \<^verbatim>\<open>self.http.get(segment_url, stream=True).content\<close>: the exchange is recorded, and the
  response is what the server gives after the exchanges so far.
  One pass of \<^verbatim>\<open>for _ in range(5)\<close> per unit of the first argument. A body is appended to the
  open file and the function returns; \<^verbatim>\<open>ChunkedEncodingError\<close> is caught and the loop goes
  on; any other exception of the request leaves the function. After the loop:
  \<^verbatim>\<open>raise SegmentDownloadError\<close>.
\<close>

definition http_get :: "env \<Rightarrow> string \<Rightarrow> world \<Rightarrow> response \<times> world" where
  "http_get E u w =
     (net E (http_log w) u, w\<lparr>http_log := http_log w @ [(u, net E (http_log w) u)]\<rparr>)"

fun fetch_segment_attempts ::
  "nat \<Rightarrow> env \<Rightarrow> string \<Rightarrow> path \<Rightarrow> world \<Rightarrow> (py_error + unit) \<times> world" where
  "fetch_segment_attempts 0 E segment_url file w = (Inl (SegmentDownloadError segment_url), w)"
| "fetch_segment_attempts (Suc n) E segment_url file w =
     (case http_get E segment_url w of
        (Content body, w') \<Rightarrow> (Inr (), write_file file body w')
      | (ChunkedEncodingError, w') \<Rightarrow> fetch_segment_attempts n E segment_url file w'
      | (RequestFailure, w') \<Rightarrow> (Inl RequestError, w'))"

definition fetch_segment :: "env \<Rightarrow> string \<Rightarrow> path \<Rightarrow> world \<Rightarrow> (py_error + unit) \<times> world" where
  "fetch_segment E segment_url file w = fetch_segment_attempts 5 E segment_url file w"

text \<open>The loop over \<^verbatim>\<open>segments_urls\<close> with the set \<^verbatim>\<open>visited_urls\<close>.\<close>

fun fetch_segments_loop ::
  "env \<Rightarrow> string set \<Rightarrow> string list \<Rightarrow> path \<Rightarrow> world \<Rightarrow> (py_error + unit) \<times> world" where
  "fetch_segments_loop E visited_urls [] file w = (Inr (), w)"
| "fetch_segments_loop E visited_urls (segment_url # rest) file w =
     (if segment_url \<notin> visited_urls then
        (case fetch_segment E segment_url file w of
           (Inl e, w') \<Rightarrow> (Inl e, w')
         | (Inr _, w') \<Rightarrow> fetch_segments_loop E (insert segment_url visited_urls) rest file w')
      else fetch_segments_loop E visited_urls rest file w)"

definition fetch_segments ::
  "env \<Rightarrow> string list \<Rightarrow> path \<Rightarrow> world \<Rightarrow> (py_error + unit) \<times> world" where
  "fetch_segments E segments_urls filepath w =
     (case open_wb filepath w of
        Inl e \<Rightarrow> (Inl e, w)
      | Inr w' \<Rightarrow> fetch_segments_loop E {} segments_urls filepath w')"

section \<open>The external programs\<close>

text \<open>
  \<^verbatim>\<open>_decrypt_video\<close> runs \<^verbatim>\<open>mp4decrypt --key 1:<key> <source> <target>\<close> and waits;
  \<^verbatim>\<open>_merge_tracks\<close> runs \<^verbatim>\<open>ffmpeg -i <source> ... -c copy <target> -y -loglevel error\<close>.
  Both turn a missing executable into \<^verbatim>\<open>FFmpegNotFoundError\<close>. A program that cannot
  read one of its inputs writes nothing.
\<close>

definition decrypt_video ::
  "env \<Rightarrow> path \<Rightarrow> path \<Rightarrow> string \<Rightarrow> world \<Rightarrow> (py_error + unit) \<times> world" where
  "decrypt_video E source_filepath target_filepath key w =
     (case mp4decrypt E of
        None \<Rightarrow> (Inl FFmpegNotFoundError, w)
      | Some run \<Rightarrow>
          (let w' = w\<lparr>processes := processes w @ [Mp4decrypt source_filepath target_filepath key]\<rparr>
           in case files w source_filepath of
                None \<Rightarrow> (Inr (), w')
              | Some encrypted \<Rightarrow>
                  (case run (''1:'' @ key) encrypted of
                     None \<Rightarrow> (Inr (), w')
                   | Some clear \<Rightarrow> (Inr (), w'\<lparr>files := (files w)(target_filepath \<mapsto> clear)\<rparr>))))"

fun read_files :: "world \<Rightarrow> path list \<Rightarrow> byte list list option" where
  "read_files w [] = Some []"
| "read_files w (p # ps) =
     (case files w p of
        None \<Rightarrow> None
      | Some c \<Rightarrow> (case read_files w ps of None \<Rightarrow> None | Some cs \<Rightarrow> Some (c # cs)))"

definition merge_tracks ::
  "env \<Rightarrow> path list \<Rightarrow> path \<Rightarrow> world \<Rightarrow> (py_error + unit) \<times> world" where
  "merge_tracks E source_filepaths target_filepath w =
     (case ffmpeg E of
        None \<Rightarrow> (Inl FFmpegNotFoundError, w)
      | Some run \<Rightarrow>
          (let w' = w\<lparr>processes := processes w @ [Ffmpeg source_filepaths target_filepath]\<rparr>
           in case read_files w source_filepaths of
                None \<Rightarrow> (Inr (), w')
              | Some tracks \<Rightarrow>
                  (case run tracks of
                     None \<Rightarrow> (Inr (), w')
                   | Some merged \<Rightarrow> (Inr (), w'\<lparr>files := (files w)(target_filepath \<mapsto> merged)\<rparr>))))"

section \<open>Construction and destruction\<close>

text \<open>
  \<^verbatim>\<open>__init__\<close> creates the temporary directory and then fetches the manifest; an
  exception of the fetch leaves the directory behind.
\<close>

definition init ::
  "env \<Rightarrow> string \<Rightarrow> path \<Rightarrow> bool \<Rightarrow> world \<Rightarrow> (py_error + video_downloader) \<times> world" where
  "init E vid temp_dir audio w =
     (let w' = mkdir_parents temp_dir w
      in case fetch_mpd_master E of
           Inl e \<Rightarrow> (Inl e, w')
         | Inr m \<Rightarrow>
             (Inr \<lparr>video_id = vid, temp_path = temp_dir, mpd_master = m, audio_only = audio\<rparr>, w'))"

text \<open>
  \<^verbatim>\<open>__del__\<close> is \<^verbatim>\<open>rmtree(self.temp_path)\<close>. Python runs it when the object is destroyed, and
  an exception raised inside a finaliser is printed and dropped.
\<close>

definition del :: "video_downloader \<Rightarrow> world \<Rightarrow> world" where
  "del d w = (case rmtree (temp_path d) w of Inl e \<Rightarrow> w | Inr w' \<Rightarrow> w')"

section \<open>\<^verbatim>\<open>download\<close>\<close>

text \<open>An entry of the list \<^verbatim>\<open>elements\<close>, as the list literal builds it.\<close>

record element =
  url :: "string list"
  type :: string
  suffix :: string

text \<open>Python truth value of \<^verbatim>\<open>key\<close>: \<^verbatim>\<open>None\<close> and the empty string are false.\<close>

definition truthy_str :: "string option \<Rightarrow> bool" where
  "truthy_str s = (case s of None \<Rightarrow> False | Some t \<Rightarrow> t \<noteq> [])"

text \<open>
  \<^verbatim>\<open>tmp_base_path = self.temp_path / self.kinescope_video.video_id\<close> (the video id is one
  component of a path), \<^verbatim>\<open>tmp_path = Path(f'{tmp_base_path}_{el["type"]}{el["suffix"]}')\<close> and
  \<^verbatim>\<open>enc_path = tmp_path.with_suffix(tmp_path.suffix + enc_suffix)\<close>.
\<close>

definition tmp_path :: "video_downloader \<Rightarrow> element \<Rightarrow> path" where
  "tmp_path d el = append_to_name (temp_path d @ [video_id d]) (''_'' @ type el @ suffix el)"

definition enc_path :: "video_downloader \<Rightarrow> element \<Rightarrow> py_error + path" where
  "enc_path d el = with_suffix (tmp_path d el) (py_suffix (last (tmp_path d el)) @ ''.enc'')"

text \<open>\<^verbatim>\<open>self._get_segments_urls(resolution)[mime]\<close>\<close>

definition track_urls :: "mpegdash \<Rightarrow> resolution \<Rightarrow> string \<Rightarrow> py_error + string list" where
  "track_urls m res mime =
     (case get_segments_urls m res of
        Inl e \<Rightarrow> Inl e
      | Inr result \<Rightarrow> (case result mime of None \<Rightarrow> Inl KeyError | Some urls \<Rightarrow> Inr urls))"

text \<open>\<^verbatim>\<open>self.get_resolutions()[-1]\<close>\<close>

definition best_resolution :: "mpegdash \<Rightarrow> py_error + resolution" where
  "best_resolution m =
     (case get_resolutions m of
        Inl e \<Rightarrow> Inl e
      | Inr None \<Rightarrow> Inl TypeError
      | Inr (Some rs) \<Rightarrow> if rs = [] then Inl IndexError else Inr (last rs))"

text \<open>The first loop over \<^verbatim>\<open>elements\<close>: every track is fetched.\<close>

fun fetch_elements ::
  "env \<Rightarrow> video_downloader \<Rightarrow> string option \<Rightarrow> element list \<Rightarrow> world \<Rightarrow>
     (py_error + unit) \<times> world" where
  "fetch_elements E d key [] w = (Inr (), w)"
| "fetch_elements E d key (el # els) w =
     (case enc_path d el of
        Inl e \<Rightarrow> (Inl e, w)
      | Inr enc \<Rightarrow>
          (case fetch_segments E (url el) (if truthy_str key then enc else tmp_path d el) w of
             (Inl e, w') \<Rightarrow> (Inl e, w')
           | (Inr _, w') \<Rightarrow> fetch_elements E d key els w'))"

text \<open>The second loop, run when \<^verbatim>\<open>key\<close> is true: every track is decrypted.\<close>

fun decrypt_elements ::
  "env \<Rightarrow> video_downloader \<Rightarrow> string \<Rightarrow> element list \<Rightarrow> world \<Rightarrow>
     (py_error + unit) \<times> world" where
  "decrypt_elements E d key [] w = (Inr (), w)"
| "decrypt_elements E d key (el # els) w =
     (case enc_path d el of
        Inl e \<Rightarrow> (Inl e, w)
      | Inr enc \<Rightarrow>
          (case decrypt_video E enc (tmp_path d el) key w of
             (Inl e, w') \<Rightarrow> (Inl e, w')
           | (Inr _, w') \<Rightarrow> decrypt_elements E d key els w'))"

text \<open>
  The end of \<^verbatim>\<open>download\<close>: the output path gets the suffix of the last element, its
  directory is created, and the tracks are merged or the single track is moved.
\<close>

definition finish ::
  "env \<Rightarrow> video_downloader \<Rightarrow> path \<Rightarrow> element list \<Rightarrow> world \<Rightarrow> (py_error + unit) \<times> world" where
  "finish E d filepath elements w =
     (case with_suffix filepath (suffix (last elements)) of
        Inl e \<Rightarrow> (Inl e, w)
      | Inr target \<Rightarrow>
          (let w' = mkdir_parents (butlast target) w
           in if \<not> audio_only d then merge_tracks E (map (tmp_path d) elements) target w'
              else move (tmp_path d (hd elements)) target w'))"

text \<open>The part of \<^verbatim>\<open>download\<close> that follows the construction of \<^verbatim>\<open>elements\<close>.\<close>

definition run_elements ::
  "env \<Rightarrow> video_downloader \<Rightarrow> path \<Rightarrow> string option \<Rightarrow> element list \<Rightarrow> world \<Rightarrow>
     (py_error + unit) \<times> world" where
  "run_elements E d filepath key elements w =
     (case fetch_elements E d key elements w of
        (Inl e, w1) \<Rightarrow> (Inl e, w1)
      | (Inr _, w1) \<Rightarrow>
          (case (if truthy_str key then decrypt_elements E d (the key) elements w1
                 else (Inr (), w1)) of
             (Inl e, w2) \<Rightarrow> (Inl e, w2)
           | (Inr _, w2) \<Rightarrow> finish E d filepath elements w2))"

text \<open>
  \<^verbatim>\<open>download\<close>: the resolution (the last of \<^verbatim>\<open>get_resolutions\<close> when none is given), the
  key, the URL lists of both tracks, and then the elements: both tracks, or the audio track
  alone after \<^verbatim>\<open>elements.pop()\<close> in audio-only mode.
\<close>

definition download ::
  "env \<Rightarrow> video_downloader \<Rightarrow> path \<Rightarrow> resolution option \<Rightarrow> world \<Rightarrow>
     (py_error + unit) \<times> world" where
  "download E d filepath resolution w =
     (case (case resolution of None \<Rightarrow> best_resolution (mpd_master d) | Some r \<Rightarrow> Inr r) of
        Inl e \<Rightarrow> (Inl e, w)
      | Inr res \<Rightarrow>
     (case get_license_key (license_post E) (mpd_master d) of
        Inl e \<Rightarrow> (Inl e, w)
      | Inr key \<Rightarrow>
     (case track_urls (mpd_master d) res ''audio/mp4'' of
        Inl e \<Rightarrow> (Inl e, w)
      | Inr audio_urls \<Rightarrow>
     (case track_urls (mpd_master d) res ''video/mp4'' of
        Inl e \<Rightarrow> (Inl e, w)
      | Inr video_urls \<Rightarrow>
          run_elements E d filepath key
            (if audio_only d then [\<lparr>url = audio_urls, type = ''Audio'', suffix = ''.aac''\<rparr>]
             else [\<lparr>url = audio_urls, type = ''Audio'', suffix = ''.aac''\<rparr>,
                   \<lparr>url = video_urls, type = ''Video'', suffix = ''.mp4''\<rparr>])
            w))))"

section \<open>The specification's notions\<close>

text \<open>
  The definitions of this section do not come from the code. They say, in the words of the
  specification, what the results of the code are compared with.
\<close>

subsection \<open>Manifests\<close>

text \<open>
  An adaptation set carries a height when the height of its first representation is present and
  not zero (a video adaptation set); \<open>no_height\<close> is the opposite for an adaptation set that has
  a representation at all (an audio adaptation set).
\<close>

definition carries_height :: "adaptation_set \<Rightarrow> bool" where
  "carries_height a =
     (case representations a of [] \<Rightarrow> False | r0 # _ \<Rightarrow> truthy_int (height r0))"

definition no_height :: "adaptation_set \<Rightarrow> bool" where
  "no_height a =
     (case representations a of [] \<Rightarrow> False | r0 # _ \<Rightarrow> \<not> truthy_int (height r0))"

definition resolution_height :: "resolution \<Rightarrow> int" where
  "resolution_height res = (case snd res of None \<Rightarrow> 0 | Some h \<Rightarrow> h)"

text \<open>
  The data model of the specification gives every representation a base URL and a sequence of
  segments, and the adaptation sets it speaks of have representations.
\<close>

definition well_formed_representation :: "representation \<Rightarrow> bool" where
  "well_formed_representation r = (base_urls r \<noteq> [] \<and> segment_lists r \<noteq> [])"

definition well_formed_adaptation_set :: "adaptation_set \<Rightarrow> bool" where
  "well_formed_adaptation_set a =
     (representations a \<noteq> [] \<and> list_all well_formed_representation (representations a))"

text \<open>
  ``If its representations carry height, find the representation whose (width, height)
  exactly equals the requested Resolution. If representations carry no height, use the first
  representation.''
\<close>

definition spec_selected :: "adaptation_set \<Rightarrow> resolution \<Rightarrow> representation option" where
  "spec_selected a res =
     (if carries_height a then find (\<lambda>r. resolution_of r = res) (representations a)
      else Some (hd (representations a)))"

text \<open>
  ``Build each segment URL as \<open>representation.baseURL + segment.mediaFragment\<close> for every segment
  entry whose media fragment is non-empty; preserve manifest order.''
\<close>

definition spec_urls :: "representation \<Rightarrow> string list" where
  "spec_urls r =
     map (\<lambda>s. base_url_value (hd (base_urls r)) @ the (media s))
       (filter (\<lambda>s. media s \<noteq> None \<and> media s \<noteq> Some [])
          (segment_urls (hd (segment_lists r))))"

text \<open>
  The URL lists by media type. The code keeps one list per media type, that of the last
  adaptation set with this type.
\<close>

definition spec_result :: "adaptation_set list \<Rightarrow> resolution \<Rightarrow> string \<rightharpoonup> string list" where
  "spec_result as res mt =
     (case find (\<lambda>a. mime_type a = mt) (rev as) of
        None \<Rightarrow> None
      | Some a \<Rightarrow> map_option spec_urls (spec_selected a res))"

text \<open>What the three manifest-reading operations may depend on: the first period.\<close>

definition first_period :: "mpegdash \<Rightarrow> period option" where
  "first_period m = (case periods m of [] \<Rightarrow> None | p # _ \<Rightarrow> Some p)"

subsection \<open>License keys\<close>

text \<open>``Pad to a valid base64 length'': pad characters up to the next multiple of four.\<close>

definition pad_to_valid_length :: "string \<Rightarrow> string" where
  "pad_to_valid_length k = k @ replicate ((4 - length k mod 4) mod 4) CHR ''=''"

text \<open>Base64 text: digits of the alphabet, then pad characters only.\<close>

definition base64_text :: "string \<Rightarrow> bool" where
  "base64_text k =
     (list_all (\<lambda>c. b64_value c \<noteq> None) (takeWhile (\<lambda>c. c \<noteq> CHR ''='') k) \<and>
      list_all (\<lambda>c. c = CHR ''='') (dropWhile (\<lambda>c. c \<noteq> CHR ''='') k))"

subsection \<open>Segments\<close>

text \<open>The distinct entries of a list, in the order of their first occurrence.\<close>

fun first_occurrences :: "'a list \<Rightarrow> 'a list" where
  "first_occurrences [] = []"
| "first_occurrences (x # xs) = x # first_occurrences (filter (\<lambda>y. y \<noteq> x) xs)"

text \<open>The exchanges of a log that delivered a body, with the body.\<close>

fun completed :: "(string \<times> response) list \<Rightarrow> (string \<times> byte list) list" where
  "completed [] = []"
| "completed ((u, r) # xs) =
     (case r of Content body \<Rightarrow> (u, body) # completed xs | _ \<Rightarrow> completed xs)"

text \<open>The runs of the multiplexer in a list of processes.\<close>

fun is_ffmpeg :: "process \<Rightarrow> bool" where
  "is_ffmpeg (Ffmpeg sources target) = True"
| "is_ffmpeg (Mp4decrypt source target key) = False"

subsection \<open>Temporary files\<close>

text \<open>
  ``Temporary file layout: \<open><workspace>/<video-id>_<TrackType><containerSuffix>[.enc]\<close>'',
  for the audio track.
\<close>

definition audio_tmp_path :: "video_downloader \<Rightarrow> path" where
  "audio_tmp_path d = temp_path d @ [video_id d @ ''_Audio.aac'']"

definition audio_enc_path :: "video_downloader \<Rightarrow> path" where
  "audio_enc_path d = temp_path d @ [video_id d @ ''_Audio.aac.enc'']"

section \<open>A manifest, a server and a license endpoint\<close>

text \<open>
  Concrete values at which the theorems below are instantiated: a manifest with an audio and a
  video adaptation set in its first period, protected with the key id \<^verbatim>\<open>aabbccdd\<close>; a license
  endpoint that answers \<^verbatim>\<open>{"keys":[{"k":"cXdlcnR5"}]}\<close>.
\<close>

definition example_segments :: "segment_list" where
  "example_segments =
     \<lparr>segment_urls = [\<lparr>media = Some ''init.mp4''\<rparr>, \<lparr>media = None\<rparr>,
                      \<lparr>media = Some ''1.m4s''\<rparr>, \<lparr>media = Some []\<rparr>,
                      \<lparr>media = Some ''1.m4s''\<rparr>]\<rparr>"

definition example_audio :: "representation" where
  "example_audio =
     \<lparr>width = None, height = None, base_urls = [\<lparr>base_url_value = ''a/''\<rparr>],
      segment_lists = [example_segments]\<rparr>"

definition example_video :: "int \<Rightarrow> int \<Rightarrow> string \<Rightarrow> representation" where
  "example_video w h base =
     \<lparr>width = Some w, height = Some h, base_urls = [\<lparr>base_url_value = base\<rparr>],
      segment_lists = [example_segments]\<rparr>"

definition example_audio_set :: "adaptation_set" where
  "example_audio_set =
     \<lparr>mime_type = ''audio/mp4'',
      content_protections = [\<lparr>cenc_default_kid = Some ''aabbccdd''\<rparr>],
      representations = [example_audio]\<rparr>"

definition example_video_set :: "adaptation_set" where
  "example_video_set =
     \<lparr>mime_type = ''video/mp4'',
      content_protections = [\<lparr>cenc_default_kid = Some ''aabbccdd''\<rparr>],
      representations =
        [example_video 1280 720 ''v720/'', example_video 640 360 ''v360/'',
         example_video 1920 1080 ''v1080/'']\<rparr>"

definition example_period :: "period" where
  "example_period = \<lparr>adaptation_sets = [example_audio_set, example_video_set]\<rparr>"

definition example_mpd :: "mpegdash" where
  "example_mpd = \<lparr>periods = [example_period]\<rparr>"

definition example_response :: "json" where
  "example_response =
     JObj [(''keys'', JArr [JObj [(''k'', JStr ''cXdlcnR5'')]])]"

text \<open>A manifest without content protection, for the runs that need no key.\<close>

definition clear_audio_set :: "adaptation_set" where
  "clear_audio_set = example_audio_set\<lparr>content_protections := []\<rparr>"

definition clear_mpd :: "mpegdash" where
  "clear_mpd = \<lparr>periods = [\<lparr>adaptation_sets = [clear_audio_set, example_video_set]\<rparr>]\<rparr>"

text \<open>
  Servers: one that delivers the name of the segment as its body, one that fails every
  request with the transient error, and one that fails the first four requests so and then
  delivers.
\<close>

definition echo_server :: "(string \<times> response) list \<Rightarrow> string \<Rightarrow> response" where
  "echo_server log u = Content (map of_char u)"

definition dead_server :: "(string \<times> response) list \<Rightarrow> string \<Rightarrow> response" where
  "dead_server log u = ChunkedEncodingError"

definition flaky_server :: "(string \<times> response) list \<Rightarrow> string \<Rightarrow> response" where
  "flaky_server log u = (if length log < 4 then ChunkedEncodingError else Content [7, 8])"

definition example_env ::
  "((string \<times> response) list \<Rightarrow> string \<Rightarrow> response) \<Rightarrow> env" where
  "example_env server =
     \<lparr>net = server, license_post = (\<lambda>kid. Inr example_response), fetch_mpd_master = Inr example_mpd,
      mp4decrypt = Some (\<lambda>key encrypted. Some (rev encrypted)),
      ffmpeg = Some (\<lambda>tracks. Some (concat tracks))\<rparr>"

definition example_downloader :: "mpegdash \<Rightarrow> bool \<Rightarrow> video_downloader" where
  "example_downloader m audio =
     \<lparr>video_id = ''vid'', temp_path = [''temp''], mpd_master = m, audio_only = audio\<rparr>"

definition example_world :: "world" where
  "example_world = \<lparr>files = Map.empty, dirs = [[''temp'']], http_log = [], processes = []\<rparr>"


definition failed_run :: "(py_error + unit) \<times> world" where
  "failed_run =
     download (example_env dead_server) (example_downloader clear_mpd False)
       [''out'', ''clip.mp4''] (Some (Some 640, Some 360)) example_world"

section \<open>Properties of \<^verbatim>\<open>get_resolutions\<close>\<close>

lemma get_resolutions_loop_skip:
  "list_all no_height pre \<Longrightarrow> get_resolutions_loop (pre @ rest) = get_resolutions_loop rest"
  by (induction pre) (auto simp: no_height_def split: list.splits)

lemma sorted_by_height_all_some:
  "\<forall>r \<in> set rs. height r \<noteq> None \<Longrightarrow> sorted_by_height rs = Inr (sort_key height_key rs)"
  by (auto simp: sorted_by_height_def)

lemma distinct_height_key:
  assumes "\<forall>r \<in> set rs. height r \<noteq> None" and "distinct (map height rs)"
  shows "distinct (map height_key rs)"
proof -
  have "inj_on height_key (set rs)"
  proof (rule inj_onI)
    fix x y assume "x \<in> set rs" "y \<in> set rs" "height_key x = height_key y"
    with assms(1) have "height x = height y"
      by (auto simp: height_key_def split: option.splits)
    with assms(2) \<open>x \<in> set rs\<close> \<open>y \<in> set rs\<close> show "x = y"
      by (meson distinct_map inj_onD)
  qed
  moreover from assms(2) have "distinct rs" by (simp add: distinct_map)
  ultimately show ?thesis by (simp add: distinct_map)
qed

lemma strict_sorted_sort_key:
  assumes "distinct (map f xs)"
  shows "sorted_wrt (<) (map f (sort_key f xs))"
proof -
  have "mset (map f (sort_key f xs)) = mset (map f xs)" by simp
  then have "distinct (map f (sort_key f xs))"
    using assms by (metis mset_eq_imp_distinct_iff)
  then show ?thesis by (simp add: strict_sorted_iff)
qed

lemma resolution_height_of: "resolution_height (resolution_of r) = height_key r"
  by (simp add: resolution_height_def resolution_of_def height_key_def)

text \<open>
  Claim C6. Let the first period hold, after adaptation sets without height, an adaptation set
  all of whose \<open>N\<close> representations (\<open>N > 0\<close>) have a height, none zero and no two equal. Then
  \<^verbatim>\<open>get_resolutions\<close> returns \<open>N\<close> pairs: the (width, height) pairs of these representations,
  in strictly ascending order of height. When every adaptation set of the first period is
  without height, \<^verbatim>\<open>get_resolutions\<close> returns \<^verbatim>\<open>None\<close> and raises nothing.
\<close>

theorem get_resolutions_sorted:
  assumes "periods m = p # ps"
  shows "(adaptation_sets p = pre @ a # post \<and> list_all no_height pre \<and>
          representations a \<noteq> [] \<and>
          (\<forall>r \<in> set (representations a). \<exists>h. height r = Some h \<and> h \<noteq> 0) \<and>
          distinct (map height (representations a)) \<longrightarrow>
            (\<exists>res. get_resolutions m = Inr (Some res) \<and>
               length res = length (representations a) \<and>
               mset res = mset (map resolution_of (representations a)) \<and>
               sorted_wrt (<) (map resolution_height res))) \<and>
         (list_all no_height (adaptation_sets p) \<longrightarrow> get_resolutions m = Inr None)"
proof (intro conjI impI)
  assume h: "adaptation_sets p = pre @ a # post \<and> list_all no_height pre \<and>
          representations a \<noteq> [] \<and>
          (\<forall>r \<in> set (representations a). \<exists>h. height r = Some h \<and> h \<noteq> 0) \<and>
          distinct (map height (representations a))"
  let ?rs = "representations a"
  from h obtain r0 rest where rs: "?rs = r0 # rest" by (cases ?rs) auto
  from h rs have t: "truthy_int (height r0)" by (auto simp: truthy_int_def)
  from h have some: "\<forall>r \<in> set ?rs. height r \<noteq> None" by auto
  have "get_resolutions m = get_resolutions_loop (a # post)"
    using assms h by (simp add: get_resolutions_def get_resolutions_loop_skip)
  also have "\<dots> = Inr (Some (map resolution_of (sort_key height_key ?rs)))"
    using rs t sorted_by_height_all_some[OF some] by simp
  finally have g: "get_resolutions m = Inr (Some (map resolution_of (sort_key height_key ?rs)))" .
  have d: "distinct (map height_key ?rs)"
    using distinct_height_key[OF some] h by simp
  have s: "sorted_wrt (<) (map resolution_height (map resolution_of (sort_key height_key ?rs)))"
    using strict_sorted_sort_key[OF d] by (simp add: comp_def resolution_height_of)
  show "\<exists>res. get_resolutions m = Inr (Some res) \<and>
               length res = length ?rs \<and>
               mset res = mset (map resolution_of ?rs) \<and>
               sorted_wrt (<) (map resolution_height res)"
    using g s by simp
next
  assume "list_all no_height (adaptation_sets p)"
  then show "get_resolutions m = Inr None"
    using assms get_resolutions_loop_skip[of "adaptation_sets p" "[]"]
    by (simp add: get_resolutions_def)
qed

theorem get_resolutions_sorted_witness:
  "periods example_mpd = example_period # [] \<and>
   adaptation_sets example_period = [example_audio_set] @ example_video_set # [] \<and>
   list_all no_height [example_audio_set] \<and>
   get_resolutions example_mpd =
     Inr (Some [(Some 640, Some 360), (Some 1280, Some 720), (Some 1920, Some 1080)]) \<and>
   list_all no_height (adaptation_sets \<lparr>adaptation_sets = [example_audio_set]\<rparr>) \<and>
   get_resolutions \<lparr>periods = [\<lparr>adaptation_sets = [example_audio_set]\<rparr>]\<rparr> = Inr None"
proof -
  have p: "periods example_mpd = example_period # []" by (simp add: example_mpd_def)
  have h: "adaptation_sets example_period = [example_audio_set] @ example_video_set # [] \<and>
      list_all no_height [example_audio_set] \<and>
      representations example_video_set \<noteq> [] \<and>
      (\<forall>r \<in> set (representations example_video_set). \<exists>h. height r = Some h \<and> h \<noteq> 0) \<and>
      distinct (map height (representations example_video_set))"
    by (simp add: example_period_def example_audio_set_def example_video_set_def
        example_audio_def example_video_def no_height_def truthy_int_def)
  from get_resolutions_sorted[OF p, of "[example_audio_set]" example_video_set "[]"] h
  obtain res where r: "get_resolutions example_mpd = Inr (Some res)" by blast
  have v: "get_resolutions example_mpd =
     Inr (Some [(Some 640, Some 360), (Some 1280, Some 720), (Some 1920, Some 1080)])"
    using r
    by (simp add: get_resolutions_def example_mpd_def example_period_def example_audio_set_def
        example_video_set_def example_audio_def example_video_def truthy_int_def
        sorted_by_height_def height_key_def resolution_of_def)
  have p2: "periods \<lparr>periods = [\<lparr>adaptation_sets = [example_audio_set]\<rparr>]\<rparr> =
      \<lparr>adaptation_sets = [example_audio_set]\<rparr> # []" by simp
  have n: "list_all no_height (adaptation_sets \<lparr>adaptation_sets = [example_audio_set]\<rparr>)"
    by (simp add: example_audio_set_def example_audio_def no_height_def truthy_int_def)
  from get_resolutions_sorted[OF p2, of "[]" example_audio_set "[]"] n
  have "get_resolutions \<lparr>periods = [\<lparr>adaptation_sets = [example_audio_set]\<rparr>]\<rparr> = Inr None"
    by blast
  with p h v n show ?thesis by simp
qed

section \<open>Properties of \<^verbatim>\<open>_get_segments_urls\<close>\<close>

lemma find_append_case:
  "find P (xs @ ys) = (case find P xs of None \<Rightarrow> find P ys | Some x \<Rightarrow> Some x)"
  by (induction xs) auto

lemma list_index_absent: "v \<notin> set xs \<Longrightarrow> list_index xs v = Inl ValueError"
  by (induction xs) auto

lemma list_index_find:
  "v \<in> f ` set xs \<Longrightarrow>
     \<exists>i. list_index (map f xs) v = Inr i \<and> i < length xs \<and> find (\<lambda>x. f x = v) xs = Some (xs ! i)"
  by (induction xs) auto

lemma media_fragments_filter:
  "map (\<lambda>f. b @ f) (media_fragments ss) =
     map (\<lambda>s. b @ the (media s)) (filter (\<lambda>s. media s \<noteq> None \<and> media s \<noteq> Some []) ss)"
  by (induction ss) (auto simp: media_fragments_def split: option.splits)

lemma representation_urls_spec:
  "well_formed_representation r \<Longrightarrow> representation_urls r = Inr (spec_urls r)"
  by (cases "base_urls r"; cases "segment_lists r")
     (simp_all add: well_formed_representation_def representation_urls_def spec_urls_def
        media_fragments_filter)

lemma select_representation_spec:
  assumes "well_formed_adaptation_set a"
  shows "select_representation a res =
           (if carries_height a \<and> res \<notin> resolution_of ` set (representations a)
            then Inl ValueError else Inr (the (spec_selected a res)))"
    and "\<not> (carries_height a \<and> res \<notin> resolution_of ` set (representations a)) \<Longrightarrow>
           \<exists>r \<in> set (representations a). spec_selected a res = Some r"
proof -
  from assms obtain r0 rest where rs: "representations a = r0 # rest"
    by (cases "representations a") (auto simp: well_formed_adaptation_set_def)
  show "select_representation a res =
           (if carries_height a \<and> res \<notin> resolution_of ` set (representations a)
            then Inl ValueError else Inr (the (spec_selected a res)))"
  proof (cases "carries_height a")
    case False
    with rs show ?thesis
      by (simp add: select_representation_def carries_height_def spec_selected_def)
  next
    case True
    then have t: "truthy_int (height r0)" using rs by (simp add: carries_height_def)
    show ?thesis
    proof (cases "res \<in> resolution_of ` set (representations a)")
      case False
      then have "list_index (map resolution_of (representations a)) res = Inl ValueError"
        by (intro list_index_absent) simp
      with True False t rs show ?thesis by (simp add: select_representation_def)
    next
      case in_set: True
      from list_index_find[OF in_set] obtain i where
        "list_index (map resolution_of (representations a)) res = Inr i"
        "find (\<lambda>x. resolution_of x = res) (representations a) = Some (representations a ! i)"
        by blast
      with True in_set t rs show ?thesis
        by (simp add: select_representation_def spec_selected_def)
    qed
  qed
  show "\<exists>r \<in> set (representations a). spec_selected a res = Some r"
    if "\<not> (carries_height a \<and> res \<notin> resolution_of ` set (representations a))"
  proof (cases "carries_height a")
    case False
    with rs show ?thesis by (simp add: spec_selected_def)
  next
    case True
    with that have "res \<in> resolution_of ` set (representations a)" by simp
    from list_index_find[OF this] True show ?thesis
      by (auto simp: spec_selected_def)
  qed
qed

lemma get_segments_urls_loop_spec:
  assumes "list_all well_formed_adaptation_set as"
  shows "get_segments_urls_loop as res result =
           (if \<exists>a \<in> set as. carries_height a \<and> res \<notin> resolution_of ` set (representations a)
            then Inl ValueError
            else Inr (\<lambda>mt. case find (\<lambda>a. mime_type a = mt) (rev as) of
                              None \<Rightarrow> result mt
                            | Some a \<Rightarrow> map_option spec_urls (spec_selected a res)))"
  using assms
proof (induction as arbitrary: result)
  case Nil
  then show ?case by simp
next
  case (Cons a as)
  then have wf: "well_formed_adaptation_set a" and wfs: "list_all well_formed_adaptation_set as"
    by simp_all
  show ?case
  proof (cases "carries_height a \<and> res \<notin> resolution_of ` set (representations a)")
    case True
    then show ?thesis using select_representation_spec(1)[OF wf, of res] by auto
  next
    case False
    from select_representation_spec(2)[OF wf False] obtain r where
      r: "r \<in> set (representations a)" "spec_selected a res = Some r" by blast
    with wf have "well_formed_representation r"
      by (auto simp: well_formed_adaptation_set_def list_all_iff)
    then have u: "representation_urls r = Inr (spec_urls r)" by (rule representation_urls_spec)
    have s: "select_representation a res = Inr r"
      using select_representation_spec(1)[OF wf, of res] False r by simp
    have "get_segments_urls_loop (a # as) res result =
            get_segments_urls_loop as res (result(mime_type a \<mapsto> spec_urls r))"
      using s u by simp
    also have "\<dots> = (if \<exists>a \<in> set as. carries_height a \<and> res \<notin> resolution_of ` set (representations a)
            then Inl ValueError
            else Inr (\<lambda>mt. case find (\<lambda>a. mime_type a = mt) (rev as) of
                              None \<Rightarrow> (result(mime_type a \<mapsto> spec_urls r)) mt
                            | Some a \<Rightarrow> map_option spec_urls (spec_selected a res)))"
      by (rule Cons.IH[OF wfs])
    also have "\<dots> = (if \<exists>a \<in> set (a # as). carries_height a \<and> res \<notin> resolution_of ` set (representations a)
            then Inl ValueError
            else Inr (\<lambda>mt. case find (\<lambda>a. mime_type a = mt) (rev (a # as)) of
                              None \<Rightarrow> result mt
                            | Some a \<Rightarrow> map_option spec_urls (spec_selected a res)))"
      using False r
      by (auto simp: find_append_case fun_eq_iff split: option.splits)
    finally show ?thesis .
  qed
qed

text \<open>
  Claim C5. For a manifest whose first period holds well-formed adaptation sets, and any
  requested resolution: \<^verbatim>\<open>_get_segments_urls\<close> raises \<^verbatim>\<open>InvalidResolution\<close> when some adaptation
  set that carries a height has no representation with exactly this (width, height); otherwise
  it returns, for every media type, the URLs of the selected representation of the adaptation
  set with this type: the representation with exactly the requested (width, height) when the
  set carries a height, the first one when it does not; the URLs are the base URL followed by
  the media fragment, for the segments with a non-empty fragment, in the order of the manifest.
\<close>

theorem get_segments_urls_spec:
  assumes "periods m = p # ps"
    and "list_all well_formed_adaptation_set (adaptation_sets p)"
  shows "get_segments_urls m res =
           (if \<exists>a \<in> set (adaptation_sets p).
                 carries_height a \<and> res \<notin> resolution_of ` set (representations a)
            then Inl InvalidResolution
            else Inr (spec_result (adaptation_sets p) res))"
proof -
  have "(\<lambda>mt. case find (\<lambda>a. mime_type a = mt) (rev (adaptation_sets p)) of
                None \<Rightarrow> Map.empty mt
              | Some a \<Rightarrow> map_option spec_urls (spec_selected a res))
          = spec_result (adaptation_sets p) res"
    by (auto simp: fun_eq_iff spec_result_def split: option.splits)
  then show ?thesis
    using assms(1) get_segments_urls_loop_spec[OF assms(2), of res Map.empty]
    by (simp add: get_segments_urls_def)
qed

theorem get_segments_urls_spec_witness:
  "periods example_mpd = example_period # [] \<and>
   list_all well_formed_adaptation_set (adaptation_sets example_period) \<and>
   get_segments_urls example_mpd (Some 640, Some 360) =
     Inr (spec_result (adaptation_sets example_period) (Some 640, Some 360)) \<and>
   spec_result (adaptation_sets example_period) (Some 640, Some 360) ''video/mp4'' =
     Some [''v360/init.mp4'', ''v360/1.m4s'', ''v360/1.m4s''] \<and>
   spec_result (adaptation_sets example_period) (Some 640, Some 360) ''audio/mp4'' =
     Some [''a/init.mp4'', ''a/1.m4s'', ''a/1.m4s''] \<and>
   get_segments_urls example_mpd (Some 640, Some 480) = Inl InvalidResolution"
proof -
  note defs = example_period_def example_audio_set_def example_video_set_def
    example_audio_def example_video_def example_segments_def
  have p: "periods example_mpd = example_period # []" by (simp add: example_mpd_def)
  have wf: "list_all well_formed_adaptation_set (adaptation_sets example_period)"
    by (simp add: defs well_formed_adaptation_set_def well_formed_representation_def)
  have ok: "\<not> (\<exists>a \<in> set (adaptation_sets example_period). carries_height a \<and>
              (Some 640, Some 360) \<notin> resolution_of ` set (representations a))"
    by (simp add: defs carries_height_def truthy_int_def resolution_of_def)
  have bad: "\<exists>a \<in> set (adaptation_sets example_period). carries_height a \<and>
              (Some 640, Some 480) \<notin> resolution_of ` set (representations a)"
    by (simp add: defs carries_height_def truthy_int_def resolution_of_def)
  have 1: "get_segments_urls example_mpd (Some 640, Some 360) =
     Inr (spec_result (adaptation_sets example_period) (Some 640, Some 360))"
    using get_segments_urls_spec[OF p wf, of "(Some 640, Some 360)"] ok by simp
  have 2: "get_segments_urls example_mpd (Some 640, Some 480) = Inl InvalidResolution"
    using get_segments_urls_spec[OF p wf, of "(Some 640, Some 480)"] bad by simp
  have 3: "spec_result (adaptation_sets example_period) (Some 640, Some 360) ''video/mp4'' =
     Some [''v360/init.mp4'', ''v360/1.m4s'', ''v360/1.m4s'']"
    by (simp add: defs spec_result_def spec_selected_def spec_urls_def carries_height_def
        truthy_int_def resolution_of_def)
  have 4: "spec_result (adaptation_sets example_period) (Some 640, Some 360) ''audio/mp4'' =
     Some [''a/init.mp4'', ''a/1.m4s'', ''a/1.m4s'']"
    by (simp add: defs spec_result_def spec_selected_def spec_urls_def carries_height_def
        truthy_int_def resolution_of_def)
  from p wf 1 2 3 4 show ?thesis by simp
qed

section \<open>Properties of \<^verbatim>\<open>_get_license_key\<close>\<close>

subsection \<open>Appending two pad characters\<close>

lemma b64_value_pad: "b64_value CHR ''='' = None"
  by (simp add: b64_value_def b64_alphabet_def)

lemma a2b_pads:
  "q + p < 4 \<or> q < 2 \<Longrightarrow>
   a2b_base64_loop q lc p out (replicate n CHR ''='') =
     (if 2 \<le> q \<and> 4 \<le> q + p + n then Inr out
      else if q \<noteq> 0 then Inl Base64Error else Inr out)"
  by (induction n arbitrary: p) auto

lemma a2b_data:
  assumes "list_all (\<lambda>c. b64_value c \<noteq> None) d" and "q < 4"
  shows "\<exists>lc' out'. \<forall>rest. a2b_base64_loop q lc 0 out (d @ rest) =
            a2b_base64_loop ((q + length d) mod 4) lc' 0 out' rest"
  using assms
proof (induction d arbitrary: q lc out)
  case Nil
  then show ?case by auto
next
  case (Cons c d)
  then obtain v where v: "b64_value c = Some v" by auto
  from v have ne: "c \<noteq> CHR ''=''" using b64_value_pad by auto
  let ?q1 = "(q + 1) mod 4"
  have q1: "?q1 < 4" by simp
  from Cons.prems have d: "list_all (\<lambda>c. b64_value c \<noteq> None) d" by simp
  have "\<exists>lc1 out1. \<forall>rest. a2b_base64_loop q lc 0 out ((c # d) @ rest) =
          a2b_base64_loop ?q1 lc1 0 out1 (d @ rest)"
  proof -
    note n = numeral_2_eq_2 numeral_3_eq_3
    consider "q = 0" | "q = 1" | "q = 2" | "q = 3" using Cons.prems(2) by linarith
    then show ?thesis
    proof cases
      case 1
      then have "\<forall>rest. a2b_base64_loop q lc 0 out ((c # d) @ rest) =
          a2b_base64_loop ?q1 v 0 out (d @ rest)" using v ne by (simp add: n)
      then show ?thesis by blast
    next
      case 2
      then have "\<forall>rest. a2b_base64_loop q lc 0 out ((c # d) @ rest) =
          a2b_base64_loop ?q1 (v mod 16) 0 (out @ [lc * 4 + v div 16]) (d @ rest)"
        using v ne by (simp add: n)
      then show ?thesis by blast
    next
      case 3
      then have "\<forall>rest. a2b_base64_loop q lc 0 out ((c # d) @ rest) =
          a2b_base64_loop ?q1 (v mod 4) 0 (out @ [lc * 16 + v div 4]) (d @ rest)"
        using v ne by simp
      then show ?thesis by blast
    next
      case 4
      then have "\<forall>rest. a2b_base64_loop q lc 0 out ((c # d) @ rest) =
          a2b_base64_loop ?q1 0 0 (out @ [lc * 64 + v]) (d @ rest)"
        using v ne by simp
      then show ?thesis by blast
    qed
  qed
  then obtain lc1 out1 where
    step: "\<And>rest. a2b_base64_loop q lc 0 out ((c # d) @ rest) = a2b_base64_loop ?q1 lc1 0 out1 (d @ rest)"
    by blast
  from Cons.IH[OF d q1, of lc1 out1] obtain lc' out' where
    ih: "\<And>rest. a2b_base64_loop ?q1 lc1 0 out1 (d @ rest) =
        a2b_base64_loop ((?q1 + length d) mod 4) lc' 0 out' rest" by blast
  have m: "(?q1 + length d) mod 4 = (q + length (c # d)) mod 4"
    by (simp add: mod_add_left_eq add.assoc)
  have "\<forall>rest. a2b_base64_loop q lc 0 out ((c # d) @ rest) =
          a2b_base64_loop ((q + length (c # d)) mod 4) lc' 0 out' rest"
    unfolding step ih m by simp
  then show ?case by blast
qed

lemma list_all_same_replicate: "list_all (\<lambda>c. c = x) r \<Longrightarrow> r = replicate (length r) x"
  by (induction r) auto

lemma base64_text_split:
  assumes "base64_text k"
  obtains d n where "k = d @ replicate n CHR ''=''" "list_all (\<lambda>c. b64_value c \<noteq> None) d"
proof -
  let ?d = "takeWhile (\<lambda>c. c \<noteq> CHR ''='') k" and ?r = "dropWhile (\<lambda>c. c \<noteq> CHR ''='') k"
  from assms have "list_all (\<lambda>c. c = CHR ''='') ?r" by (simp add: base64_text_def)
  then have "?r = replicate (length ?r) CHR ''=''"
    by (rule list_all_same_replicate)
  moreover have "k = ?d @ ?r" by simp
  ultimately have "k = ?d @ replicate (length ?r) CHR ''=''" by metis
  moreover from assms have "list_all (\<lambda>c. b64_value c \<noteq> None) ?d" by (simp add: base64_text_def)
  ultimately show ?thesis using that by blast
qed

lemma pad_arith:
  fixes a n :: nat
  assumes "2 \<le> a mod 4"
  shows "4 \<le> a mod 4 + (n + (4 - (a + n) mod 4) mod 4)"
proof (cases "2 \<le> n")
  case True
  with assms show ?thesis by linarith
next
  case False
  then consider "n = 0" | "n = 1" by linarith
  then show ?thesis
  proof cases
    case 1
    have "a mod 4 < 4" by simp
    with assms have "a mod 4 = 2 \<or> a mod 4 = 3" by linarith
    with 1 show ?thesis by auto
  next
    case 2
    have "a mod 4 < 4" by simp
    with assms have "a mod 4 = 2 \<or> a mod 4 = 3" by linarith
    with 2 show ?thesis by (auto simp: mod_Suc)
  qed
qed


lemma b64decode_pad_equiv:
  assumes "base64_text k"
  shows "b64decode (k @ ''=='') = b64decode (pad_to_valid_length k)"
proof -
  from assms obtain d n where k: "k = d @ replicate n CHR ''=''"
    and d: "list_all (\<lambda>c. b64_value c \<noteq> None) d" by (rule base64_text_split)
  from a2b_data[OF d, of 0 0 "[]"] obtain lc' out' where
    run: "\<And>rest. a2b_base64_loop 0 0 0 [] (d @ rest) = a2b_base64_loop (length d mod 4) lc' 0 out' rest"
    by auto
  let ?m = "(4 - length k mod 4) mod 4"
  have two: "''=='' = replicate 2 CHR ''=''" by (simp add: numeral_2_eq_2)
  have e1: "k @ ''=='' = d @ replicate (n + 2) CHR ''=''"
    unfolding two k by (simp only: append_assoc replicate_add)
  have e2: "pad_to_valid_length k = d @ replicate (n + ?m) CHR ''=''"
    by (simp add: pad_to_valid_length_def k replicate_add)
  have len: "length k = length d + n" by (simp add: k)
  have "a2b_base64_loop 0 0 0 [] (k @ ''=='') = a2b_base64_loop 0 0 0 [] (pad_to_valid_length k)"
  proof -
    have lt: "length d mod 4 + 0 < 4 \<or> length d mod 4 < 2" by simp
    have ar: "2 \<le> length d mod 4 \<Longrightarrow>
        4 \<le> length d mod 4 + (n + (4 - (length d + n) mod 4) mod 4)"
      by (rule pad_arith)
    show ?thesis
      unfolding e1 e2 run a2b_pads[OF lt] len using ar by simp
  qed
  moreover have "(\<exists>c \<in> set (k @ ''==''). (128::nat) \<le> of_char c) = (\<exists>c \<in> set (pad_to_valid_length k). (128::nat) \<le> of_char c)"
    by (auto simp: pad_to_valid_length_def)
  ultimately show ?thesis by (simp add: b64decode_def)
qed


lemma a2b_prefix:
  assumes "q < 4" and "q + p < 4 \<or> q < 2"
  shows "(\<exists>res. \<forall>t. a2b_base64_loop q lc p out (s @ t) = Inr res) \<or>
         (\<exists>q' lc' p' out'. q' < 4 \<and> (q' + p' < 4 \<or> q' < 2) \<and>
            (\<forall>t. a2b_base64_loop q lc p out (s @ t) = a2b_base64_loop q' lc' p' out' t))"
  using assms
proof (induction s arbitrary: q lc p out)
  case Nil
  then have "q < 4 \<and> (q + p < 4 \<or> q < 2) \<and>
      (\<forall>t. a2b_base64_loop q lc p out ([] @ t) = a2b_base64_loop q lc p out t)" by simp
  then show ?case by blast
next
  case (Cons c s)
  show ?case
  proof (cases "c = CHR ''=''")
    case True
    show ?thesis
    proof (cases "2 \<le> q \<and> 4 \<le> q + (p + 1)")
      case True
      with \<open>c = CHR ''=''\<close> have "\<forall>t. a2b_base64_loop q lc p out ((c # s) @ t) = Inr out" by simp
      then show ?thesis by blast
    next
      case False
      let ?p = "if 2 \<le> q then p + 1 else p"
      from False \<open>c = CHR ''=''\<close> have step:
        "\<And>t. a2b_base64_loop q lc p out ((c # s) @ t) = a2b_base64_loop q lc ?p out (s @ t)"
        by auto
      have "q + ?p < 4 \<or> q < 2" using False by auto
      from Cons.IH[OF Cons.prems(1) this, of lc out] show ?thesis unfolding step .
    qed
  next
    case False
    show ?thesis
    proof (cases "b64_value c")
      case None
      with False have step:
        "\<And>t. a2b_base64_loop q lc p out ((c # s) @ t) = a2b_base64_loop q lc p out (s @ t)"
        by simp
      from Cons.IH[OF Cons.prems, of lc out] show ?thesis unfolding step .
    next
      case (Some v)
      have "\<exists>q1 lc1 out1. q1 < 4 \<and>
              (\<forall>t. a2b_base64_loop q lc p out ((c # s) @ t) = a2b_base64_loop q1 lc1 0 out1 (s @ t))"
      proof -
        consider "q = 0" | "q = 1" | "q = 2" | "q = 3" using Cons.prems(1) by linarith
        then show ?thesis
        proof cases
          case 1
          with Some False have "(1::nat) < 4 \<and>
              (\<forall>t. a2b_base64_loop q lc p out ((c # s) @ t) = a2b_base64_loop 1 v 0 out (s @ t))"
            by simp
          then show ?thesis by blast
        next
          case 2
          with Some False have "(2::nat) < 4 \<and>
              (\<forall>t. a2b_base64_loop q lc p out ((c # s) @ t) =
                 a2b_base64_loop 2 (v mod 16) 0 (out @ [lc * 4 + v div 16]) (s @ t))"
            by simp
          then show ?thesis by blast
        next
          case 3
          with Some False have "(3::nat) < 4 \<and>
              (\<forall>t. a2b_base64_loop q lc p out ((c # s) @ t) =
                 a2b_base64_loop 3 (v mod 4) 0 (out @ [lc * 16 + v div 4]) (s @ t))"
            by simp
          then show ?thesis by blast
        next
          case 4
          with Some False have "(0::nat) < 4 \<and>
              (\<forall>t. a2b_base64_loop q lc p out ((c # s) @ t) =
                 a2b_base64_loop 0 0 0 (out @ [lc * 64 + v]) (s @ t))"
            by simp
          then show ?thesis by blast
        qed
      qed
      then obtain q1 lc1 out1 where q1: "q1 < 4" and
        step: "\<And>t. a2b_base64_loop q lc p out ((c # s) @ t) = a2b_base64_loop q1 lc1 0 out1 (s @ t)"
        by blast
      have "q1 + 0 < 4 \<or> q1 < 2" using q1 by simp
      from Cons.IH[OF q1 this, of lc1 out1] show ?thesis unfolding step .
    qed
  qed
qed

lemma a2b_two_pads_suffice:
  assumes "a2b_base64_loop 0 0 0 [] (k @ replicate m CHR ''='') = Inr raw"
  shows "a2b_base64_loop 0 0 0 [] (k @ ''=='') = Inr raw"
proof -
  have two: "''=='' = replicate 2 CHR ''=''" by (simp add: numeral_2_eq_2)
  have "(\<exists>res. \<forall>t. a2b_base64_loop 0 0 0 [] (k @ t) = Inr res) \<or>
         (\<exists>q' lc' p' out'. q' < 4 \<and> (q' + p' < 4 \<or> q' < 2) \<and>
            (\<forall>t. a2b_base64_loop 0 0 0 [] (k @ t) = a2b_base64_loop q' lc' p' out' t))"
    by (rule a2b_prefix) simp_all
  then show ?thesis
  proof
    assume "\<exists>res. \<forall>t. a2b_base64_loop 0 0 0 [] (k @ t) = Inr res"
    with assms show ?thesis by auto
  next
    assume "\<exists>q' lc' p' out'. q' < 4 \<and> (q' + p' < 4 \<or> q' < 2) \<and>
            (\<forall>t. a2b_base64_loop 0 0 0 [] (k @ t) = a2b_base64_loop q' lc' p' out' t)"
    then obtain q' lc' p' out' where inv: "q' + p' < 4 \<or> q' < 2"
      and run: "\<forall>t. a2b_base64_loop 0 0 0 [] (k @ t) = a2b_base64_loop q' lc' p' out' t"
      by blast
    from assms run have "a2b_base64_loop q' lc' p' out' (replicate m CHR ''='') = Inr raw"
      by simp
    then have "raw = out' \<and> (2 \<le> q' \<or> q' = 0)"
      unfolding a2b_pads[OF inv] by (auto split: if_splits)
    then have "a2b_base64_loop q' lc' p' out' (replicate 2 CHR ''='') = Inr raw"
      unfolding a2b_pads[OF inv] by auto
    with run show ?thesis unfolding two by simp
  qed
qed

lemma b64decode_two_pads_suffice:
  assumes "b64decode (pad_to_valid_length k) = Inr raw"
  shows "b64decode (k @ ''=='') = Inr raw"
proof -
  let ?m = "(4 - length k mod 4) mod 4"
  from assms have ascii: "\<not> (\<exists>c \<in> set k. (128::nat) \<le> of_char c)"
    and run: "a2b_base64_loop 0 0 0 [] (k @ replicate ?m CHR ''='') = Inr raw"
    by (auto simp: b64decode_def pad_to_valid_length_def split: if_splits)
  from a2b_two_pads_suffice[OF run] ascii show ?thesis
    by (auto simp: b64decode_def)
qed

lemma a2b_error: "a2b_base64_loop q lc p out s = Inl e \<Longrightarrow> e = Base64Error"
  by (induction q lc p out s rule: a2b_base64_loop.induct) (auto split: if_splits option.splits)

lemma b64decode_error: "b64decode s = Inl e \<Longrightarrow> e \<noteq> KeyError"
  by (auto simp: b64decode_def split: if_splits dest: a2b_error)

lemma response_key_shape:
  assumes "map_of items ''keys'' = Some (JArr (JObj key0 # others))"
    and "map_of key0 ''k'' = Some (JStr k)"
  shows "response_key (JObj items) = map_sum id bytes_hex (b64decode (k @ ''==''))"
  using assms
  by (simp add: response_key_def getitem_key_def getitem_0_def add_str_def split: sum.splits)

subsection \<open>The key\<close>

text \<open>
  Claim C1. Let the first adaptation set of the first period have a content-protection
  descriptor with a key id that \<^verbatim>\<open>bytes.fromhex\<close> accepts, and let the license endpoint answer
  with an object whose \<^verbatim>\<open>keys[0].k\<close> is the string \<open>k\<close>. Whenever \<open>k\<close>, padded to a multiple of
  four characters, is decoded by \<^verbatim>\<open>b64decode\<close> to the bytes \<open>raw\<close>, \<^verbatim>\<open>_get_license_key\<close> returns
  the hexadecimal text of \<open>raw\<close>. For \<open>k\<close> a Base64 text the two sides agree altogether: where the
  padded \<open>k\<close> cannot be decoded, \<^verbatim>\<open>_get_license_key\<close> raises the error of the decoder. The
  witness is the example of the specification: key id \<^verbatim>\<open>aabbccdd\<close>, \<^verbatim>\<open>k\<close> = \<^verbatim>\<open>cXdlcnR5\<close>,
  key \<^verbatim>\<open>717765727479\<close>.
\<close>

theorem license_key_is_hex_of_decoded_k:
  assumes "periods m = p # ps"
    and "adaptation_sets p = a # as"
    and "content_protections a = cp # cps"
    and "request_kid cp = Inr kid"
    and "post kid = Inr (JObj items)"
    and "map_of items ''keys'' = Some (JArr (JObj key0 # others))"
    and "map_of key0 ''k'' = Some (JStr k)"
  shows "(\<forall>raw. b64decode (pad_to_valid_length k) = Inr raw \<longrightarrow>
            get_license_key post m = Inr (Some (bytes_hex raw))) \<and>
         (base64_text k \<longrightarrow>
            get_license_key post m =
              map_sum id (\<lambda>raw. Some (bytes_hex raw)) (b64decode (pad_to_valid_length k)))"
proof -
  have g: "get_license_key post m =
             map_sum id (\<lambda>raw. Some (bytes_hex raw)) (b64decode (k @ ''==''))"
  proof (cases "b64decode (k @ ''=='')")
    case (Inl e)
    then have "e \<noteq> KeyError" by (rule b64decode_error)
    with Inl assms show ?thesis
      by (cases e) (simp_all add: get_license_key_def response_key_shape)
  next
    case (Inr raw)
    with assms show ?thesis
      by (simp add: get_license_key_def response_key_shape)
  qed
  show ?thesis
  proof (intro conjI allI impI)
    fix raw assume "b64decode (pad_to_valid_length k) = Inr raw"
    then have "b64decode (k @ ''=='') = Inr raw" by (rule b64decode_two_pads_suffice)
    with g show "get_license_key post m = Inr (Some (bytes_hex raw))" by simp
  next
    assume "base64_text k"
    then have "b64decode (k @ ''=='') = b64decode (pad_to_valid_length k)"
      by (rule b64decode_pad_equiv)
    with g show "get_license_key post m =
              map_sum id (\<lambda>raw. Some (bytes_hex raw)) (b64decode (pad_to_valid_length k))"
      by simp
  qed
qed

theorem license_key_is_hex_of_decoded_k_witness:
  "periods example_mpd = example_period # [] \<and>
   adaptation_sets example_period = example_audio_set # [example_video_set] \<and>
   content_protections example_audio_set = \<lparr>cenc_default_kid = Some ''aabbccdd''\<rparr> # [] \<and>
   request_kid \<lparr>cenc_default_kid = Some ''aabbccdd''\<rparr> = Inr ''qrvM3Q'' \<and>
   base64_text ''cXdlcnR5'' \<and>
   b64decode (pad_to_valid_length ''cXdlcnR5'') = Inr [113, 119, 101, 114, 116, 121] \<and>
   get_license_key (\<lambda>kid. Inr example_response) example_mpd = Inr (Some ''717765727479'')"
proof -
  have 1: "periods example_mpd = example_period # []" by (simp add: example_mpd_def)
  have 2: "adaptation_sets example_period = example_audio_set # [example_video_set]"
    by (simp add: example_period_def)
  have 3: "content_protections example_audio_set = \<lparr>cenc_default_kid = Some ''aabbccdd''\<rparr> # []"
    by (simp add: example_audio_set_def)
  have 4: "request_kid \<lparr>cenc_default_kid = Some ''aabbccdd''\<rparr> = Inr ''qrvM3Q''"
    by (simp add: request_kid_def hex_digit_value_def py_isspace_def b64_char_def
        b64_alphabet_def)
  have 5: "(\<lambda>kid. Inr example_response) ''qrvM3Q'' =
      (Inr (JObj [(''keys'', JArr [JObj [(''k'', JStr ''cXdlcnR5'')]])])
        :: py_error + json)"
    by (simp add: example_response_def)
  have 6: "map_of [(''keys'', JArr [JObj [(''k'', JStr ''cXdlcnR5'')]])]
      ''keys'' = Some (JArr (JObj [(''k'', JStr ''cXdlcnR5'')] # []))"
    by simp
  have 7: "map_of [(''k'', JStr ''cXdlcnR5'')] ''k'' =
      Some (JStr ''cXdlcnR5'')"
    by simp
  have t: "base64_text ''cXdlcnR5''"
    by (simp add: base64_text_def b64_value_def b64_alphabet_def)
  have d: "b64decode (pad_to_valid_length ''cXdlcnR5'') = Inr [113, 119, 101, 114, 116, 121]"
    by (simp add: pad_to_valid_length_def b64decode_def b64_value_def b64_alphabet_def)
  from license_key_is_hex_of_decoded_k[OF 1 2 3 4 5 6 7] d
  have "get_license_key (\<lambda>kid. Inr example_response) example_mpd =
      Inr (Some (bytes_hex [113, 119, 101, 114, 116, 121]))"
    by blast
  then have k: "get_license_key (\<lambda>kid. Inr example_response) example_mpd =
      Inr (Some ''717765727479'')"
    by (simp add: bytes_hex_def hex_char_def)
  from 1 2 3 4 t d k show ?thesis by simp
qed

subsection \<open>Responses without a key\<close>

text \<open>
  A response without \<^verbatim>\<open>keys\<close>, and one whose first key has no \<^verbatim>\<open>k\<close>, raise \<^verbatim>\<open>KeyError\<close>,
  which the handler turns into \<^verbatim>\<open>UnsupportedEncryption\<close>.
\<close>

lemma response_key_missing_keys:
  "map_of items ''keys'' = None \<Longrightarrow> response_key (JObj items) = Inl KeyError"
  by (simp add: response_key_def getitem_key_def)

lemma response_key_missing_k:
  "map_of items ''keys'' = Some (JArr (JObj key0 # others)) \<Longrightarrow> map_of key0 ''k'' = None \<Longrightarrow>
   response_key (JObj items) = Inl KeyError"
  by (simp add: response_key_def getitem_key_def getitem_0_def)

lemma response_key_empty_keys:
  "map_of items ''keys'' = Some (JArr []) \<Longrightarrow> response_key (JObj items) = Inl IndexError"
  by (simp add: response_key_def getitem_key_def getitem_0_def)

lemma get_license_key_response:
  assumes "periods m = p # ps"
    and "adaptation_sets p = a # as"
    and "content_protections a = cp # cps"
    and "request_kid cp = Inr kid"
    and "post kid = Inr response"
  shows "get_license_key post m =
     (case response_key response of
        Inl KeyError \<Rightarrow> Inl UnsupportedEncryption
      | Inl e \<Rightarrow> Inl e
      | Inr key \<Rightarrow> Inr (Some key))"
  using assms by (simp add: get_license_key_def split: sum.splits py_error.splits)

lemma get_license_key_unsupported:
  assumes "periods m = p # ps"
    and "adaptation_sets p = a # as"
    and "content_protections a = cp # cps"
    and "request_kid cp = Inr kid"
    and "post kid = Inr (JObj items)"
    and "map_of items ''keys'' = None \<or>
         (\<exists>key0 others. map_of items ''keys'' = Some (JArr (JObj key0 # others)) \<and>
            map_of key0 ''k'' = None)"
  shows "get_license_key post m = Inl UnsupportedEncryption"
  using assms(6) get_license_key_response[where post = post, OF assms(1-5)]
  by (auto simp: response_key_missing_keys response_key_missing_k)

text \<open>
  Claim C2. The claim holds for a response without \<^verbatim>\<open>keys\<close> and for a first key without
  \<^verbatim>\<open>k\<close> (lemma \<open>get_license_key_unsupported\<close>). It fails for the empty list of keys: at the
  response \<^verbatim>\<open>{"keys": []}\<close>, for the manifest with the key id \<^verbatim>\<open>aabbccdd\<close>, the subscript
  \<^verbatim>\<open>[0]\<close> raises \<^verbatim>\<open>IndexError\<close>, which the handler for \<^verbatim>\<open>KeyError\<close> lets through.
\<close>

theorem empty_keys_list_raises_index_error:
  "get_license_key (\<lambda>kid. Inr (JObj [(''keys'', JArr [])])) example_mpd = Inl IndexError"
proof -
  have 1: "periods example_mpd = example_period # []" by (simp add: example_mpd_def)
  have 2: "adaptation_sets example_period = example_audio_set # [example_video_set]"
    by (simp add: example_period_def)
  have 3: "content_protections example_audio_set = \<lparr>cenc_default_kid = Some ''aabbccdd''\<rparr> # []"
    by (simp add: example_audio_set_def)
  have 4: "request_kid \<lparr>cenc_default_kid = Some ''aabbccdd''\<rparr> = Inr ''qrvM3Q''"
    by (simp add: request_kid_def hex_digit_value_def py_isspace_def b64_char_def
        b64_alphabet_def)
  have 5: "(\<lambda>kid. Inr (JObj [(''keys'', JArr [])])) ''qrvM3Q'' =
      (Inr (JObj [(''keys'', JArr [])]) :: py_error + json)" by simp
  show ?thesis
    unfolding get_license_key_response[where post = "\<lambda>kid. Inr (JObj [(''keys'', JArr [])])", OF 1 2 3 4 5]
    by (simp add: response_key_empty_keys)
qed

section \<open>Only the first period is read\<close>

text \<open>
  Claim C9. Two manifests with the same first period (or both without a period) get the same
  result from \<^verbatim>\<open>get_resolutions\<close>, from \<^verbatim>\<open>_get_license_key\<close> (with the same license endpoint) and
  from \<^verbatim>\<open>_get_segments_urls\<close> (for the same resolution), whatever their later periods are.
\<close>

theorem first_period_only:
  assumes "first_period m1 = first_period m2"
  shows "get_resolutions m1 = get_resolutions m2 \<and>
         get_license_key post m1 = get_license_key post m2 \<and>
         get_segments_urls m1 res = get_segments_urls m2 res"
proof (cases "periods m1")
  case Nil
  with assms have "periods m2 = []" by (simp add: first_period_def split: list.splits)
  with Nil show ?thesis
    by (simp add: get_resolutions_def get_license_key_def get_segments_urls_def)
next
  case (Cons p ps1)
  with assms obtain ps2 where "periods m2 = p # ps2"
    by (auto simp: first_period_def split: list.splits)
  with Cons show ?thesis
    by (simp add: get_resolutions_def get_license_key_def get_segments_urls_def)
qed

theorem first_period_only_witness:
  "first_period example_mpd =
     first_period \<lparr>periods = [example_period, \<lparr>adaptation_sets = []\<rparr>]\<rparr> \<and>
   example_mpd \<noteq> \<lparr>periods = [example_period, \<lparr>adaptation_sets = []\<rparr>]\<rparr> \<and>
   get_resolutions example_mpd =
     get_resolutions \<lparr>periods = [example_period, \<lparr>adaptation_sets = []\<rparr>]\<rparr> \<and>
   get_license_key (\<lambda>kid. Inr example_response) example_mpd =
     get_license_key (\<lambda>kid. Inr example_response)
       \<lparr>periods = [example_period, \<lparr>adaptation_sets = []\<rparr>]\<rparr> \<and>
   get_segments_urls example_mpd (Some 640, Some 360) =
     get_segments_urls \<lparr>periods = [example_period, \<lparr>adaptation_sets = []\<rparr>]\<rparr>
       (Some 640, Some 360)"
proof -
  have h: "first_period example_mpd =
     first_period \<lparr>periods = [example_period, \<lparr>adaptation_sets = []\<rparr>]\<rparr>"
    by (simp add: first_period_def example_mpd_def)
  have d: "example_mpd \<noteq> \<lparr>periods = [example_period, \<lparr>adaptation_sets = []\<rparr>]\<rparr>"
    by (simp add: example_mpd_def)
  from first_period_only[OF h, of "\<lambda>kid. Inr example_response" "(Some 640, Some 360)"] h d
  show ?thesis by simp
qed

section \<open>Properties of \<^verbatim>\<open>_fetch_segment\<close> and \<^verbatim>\<open>_fetch_segments\<close>\<close>

lemma completed_append: "completed (xs @ ys) = completed xs @ completed ys"
  by (induction xs rule: completed.induct) (auto split: response.splits)

lemma completed_failures: "completed (replicate k (u, ChunkedEncodingError)) = []"
  by (induction k) auto

lemma set_first_occurrences: "set (first_occurrences xs) = set xs"
  by (induction xs rule: first_occurrences.induct) auto

lemma distinct_first_occurrences: "distinct (first_occurrences xs)"
  by (induction xs rule: first_occurrences.induct) (auto simp: set_first_occurrences)

lemma file_content_http_log [simp]: "file_content (w\<lparr>http_log := l\<rparr>) p = file_content w p"
  by (simp add: file_content_def)

lemma fetch_step_content:
  "net E (http_log w) u = Content body \<Longrightarrow>
   fetch_segment_attempts (Suc n) E u f w =
     (Inr (), w\<lparr>http_log := http_log w @ [(u, Content body)],
                files := (files w)(f \<mapsto> file_content w f @ body)\<rparr>)"
  by (simp add: http_get_def write_file_def)

lemma fetch_step_retry:
  "net E (http_log w) u = ChunkedEncodingError \<Longrightarrow>
   fetch_segment_attempts (Suc n) E u f w =
     fetch_segment_attempts n E u f (w\<lparr>http_log := http_log w @ [(u, ChunkedEncodingError)]\<rparr>)"
  by (simp add: http_get_def)

lemma fetch_step_failure:
  "net E (http_log w) u = RequestFailure \<Longrightarrow>
   fetch_segment_attempts (Suc n) E u f w =
     (Inl RequestError, w\<lparr>http_log := http_log w @ [(u, RequestFailure)]\<rparr>)"
  by (simp add: http_get_def)

declare fetch_segment_attempts.simps(2) [simp del]

lemma fetch_segment_attempts_all_fail:
  "(\<forall>i < n. net E (http_log w @ replicate i (u, ChunkedEncodingError)) u = ChunkedEncodingError) \<Longrightarrow>
   fetch_segment_attempts n E u f w =
     (Inl (SegmentDownloadError u),
      w\<lparr>http_log := http_log w @ replicate n (u, ChunkedEncodingError)\<rparr>)"
proof (induction n arbitrary: w)
  case 0
  then show ?case by simp
next
  case (Suc n)
  let ?w1 = "w\<lparr>http_log := http_log w @ [(u, ChunkedEncodingError)]\<rparr>"
  from Suc.prems have first: "net E (http_log w) u = ChunkedEncodingError"
    by (metis append_Nil2 replicate_0 zero_less_Suc)
  have "\<forall>i < n. net E (http_log ?w1 @ replicate i (u, ChunkedEncodingError)) u = ChunkedEncodingError"
  proof (intro allI impI)
    fix i assume "i < n"
    then have "net E (http_log w @ replicate (Suc i) (u, ChunkedEncodingError)) u = ChunkedEncodingError"
      using Suc.prems by (meson Suc_mono)
    then show "net E (http_log ?w1 @ replicate i (u, ChunkedEncodingError)) u = ChunkedEncodingError"
      by (simp add: replicate_append_same)
  qed
  from Suc.IH[OF this] show ?case
    unfolding fetch_step_retry[OF first] by (simp add: replicate_append_same)
qed

lemma fetch_segment_attempts_then_success:
  "(\<forall>i < k. net E (http_log w @ replicate i (u, ChunkedEncodingError)) u = ChunkedEncodingError) \<Longrightarrow>
   net E (http_log w @ replicate k (u, ChunkedEncodingError)) u = Content body \<Longrightarrow> k < n \<Longrightarrow>
   fetch_segment_attempts n E u f w =
     (Inr (),
      w\<lparr>http_log := http_log w @ replicate k (u, ChunkedEncodingError) @ [(u, Content body)],
        files := (files w)(f \<mapsto> file_content w f @ body)\<rparr>)"
proof (induction n arbitrary: w k)
  case 0
  then show ?case by simp
next
  case (Suc n)
  show ?case
  proof (cases k)
    case 0
    with Suc.prems have "net E (http_log w) u = Content body" by simp
    from fetch_step_content[OF this] 0 show ?thesis by (simp add: fun_upd_def)
  next
    case (Suc k')
    let ?w1 = "w\<lparr>http_log := http_log w @ [(u, ChunkedEncodingError)]\<rparr>"
    from Suc.prems(1) Suc have first: "net E (http_log w) u = ChunkedEncodingError"
      by (metis append_Nil2 replicate_0 zero_less_Suc)
    have a: "\<forall>i < k'. net E (http_log ?w1 @ replicate i (u, ChunkedEncodingError)) u = ChunkedEncodingError"
    proof (intro allI impI)
      fix i assume "i < k'"
      then have "net E (http_log w @ replicate (Suc i) (u, ChunkedEncodingError)) u = ChunkedEncodingError"
        using Suc.prems(1) Suc by (meson Suc_mono)
      then show "net E (http_log ?w1 @ replicate i (u, ChunkedEncodingError)) u = ChunkedEncodingError"
        by (simp add: replicate_append_same)
    qed
    have b: "net E (http_log ?w1 @ replicate k' (u, ChunkedEncodingError)) u = Content body"
      using Suc.prems(2) Suc by (simp add: replicate_append_same)
    have c: "k' < n" using Suc.prems(3) Suc by simp
    from Suc.IH[OF a b c] Suc show ?thesis
      unfolding fetch_step_retry[OF first] by (simp add: replicate_append_same file_content_def)
  qed
qed

lemma fetch_segment_attempts_success:
  "fetch_segment_attempts n E u f w = (Inr (), w') \<Longrightarrow>
     \<exists>k body. k < n \<and>
       w' = w\<lparr>http_log := http_log w @ replicate k (u, ChunkedEncodingError) @ [(u, Content body)],
              files := (files w)(f \<mapsto> file_content w f @ body)\<rparr>"
proof (induction n arbitrary: w)
  case 0
  then show ?case by simp
next
  case (Suc n)
  let ?w1 = "w\<lparr>http_log := http_log w @ [(u, ChunkedEncodingError)]\<rparr>"
  show ?case
  proof (cases "net E (http_log w) u")
    case (Content body)
    from Suc.prems have "w' = w\<lparr>http_log := http_log w @ replicate 0 (u, ChunkedEncodingError) @ [(u, Content body)],
              files := (files w)(f \<mapsto> file_content w f @ body)\<rparr>"
      unfolding fetch_step_content[OF Content] by simp
    then show ?thesis by blast
  next
    case ChunkedEncodingError
    from Suc.prems have "fetch_segment_attempts n E u f ?w1 = (Inr (), w')"
      unfolding fetch_step_retry[OF ChunkedEncodingError] .
    from Suc.IH[OF this] obtain k body where k: "k < n" and
      w': "w' = ?w1\<lparr>http_log := http_log ?w1 @ replicate k (u, ChunkedEncodingError) @ [(u, Content body)],
              files := (files ?w1)(f \<mapsto> file_content ?w1 f @ body)\<rparr>" by blast
    have "w' = w\<lparr>http_log := http_log w @ replicate (Suc k) (u, ChunkedEncodingError) @ [(u, Content body)],
              files := (files w)(f \<mapsto> file_content w f @ body)\<rparr>"
      unfolding w' by (simp add: file_content_def)
    with k show ?thesis by (metis Suc_less_eq)
  next
    case RequestFailure
    from Suc.prems show ?thesis unfolding fetch_step_failure[OF RequestFailure] by simp
  qed
qed

lemma fetch_segment_attempts_frame:
  "dirs (snd (fetch_segment_attempts n E u f w)) = dirs w \<and>
   processes (snd (fetch_segment_attempts n E u f w)) = processes w \<and>
   (\<forall>p. p \<noteq> f \<longrightarrow> files (snd (fetch_segment_attempts n E u f w)) p = files w p) \<and>
   (files w f \<noteq> None \<longrightarrow> files (snd (fetch_segment_attempts n E u f w)) f \<noteq> None) \<and>
   (\<exists>new. http_log (snd (fetch_segment_attempts n E u f w)) = http_log w @ new \<and>
          length new \<le> n \<and> (\<forall>x \<in> set new. fst x = u))"
proof (induction n arbitrary: w)
  case 0
  then show ?case by simp
next
  case (Suc n)
  let ?w1 = "w\<lparr>http_log := http_log w @ [(u, ChunkedEncodingError)]\<rparr>"
  show ?case
  proof (cases "net E (http_log w) u")
    case (Content body)
    have "length [(u, Content body)] \<le> Suc n \<and> (\<forall>x \<in> set [(u, Content body)]. fst x = u)"
      by simp
    then have "\<exists>new. http_log w @ [(u, Content body)] = http_log w @ new \<and>
          length new \<le> Suc n \<and> (\<forall>x \<in> set new. fst x = u)" by blast
    then show ?thesis unfolding fetch_step_content[OF Content] by simp
  next
    case ChunkedEncodingError
    from Suc.IH[of ?w1] obtain new where
      new: "http_log (snd (fetch_segment_attempts n E u f ?w1)) = http_log ?w1 @ new"
        "length new \<le> n" "\<forall>x \<in> set new. fst x = u" by blast
    have "http_log (snd (fetch_segment_attempts n E u f ?w1)) =
            http_log w @ ((u, ChunkedEncodingError) # new)"
      unfolding new(1) by simp
    moreover have "length ((u, ChunkedEncodingError) # new) \<le> Suc n \<and>
        (\<forall>x \<in> set ((u, ChunkedEncodingError) # new). fst x = u)"
      using new by simp
    ultimately have "\<exists>new. http_log (snd (fetch_segment_attempts n E u f ?w1)) = http_log w @ new \<and>
          length new \<le> Suc n \<and> (\<forall>x \<in> set new. fst x = u)" by blast
    then show ?thesis unfolding fetch_step_retry[OF ChunkedEncodingError] using Suc.IH[of ?w1] by simp
  next
    case RequestFailure
    have "length [(u, RequestFailure)] \<le> Suc n \<and> (\<forall>x \<in> set [(u, RequestFailure)]. fst x = u)"
      by simp
    then have "\<exists>new. http_log w @ [(u, RequestFailure)] = http_log w @ new \<and>
          length new \<le> Suc n \<and> (\<forall>x \<in> set new. fst x = u)" by blast
    then show ?thesis unfolding fetch_step_failure[OF RequestFailure] by simp
  qed
qed

lemma fetch_segments_loop_success:
  "fetch_segments_loop E V urls f w = (Inr (), w') \<Longrightarrow>
     \<exists>new. http_log w' = http_log w @ new \<and>
       map fst (completed new) = first_occurrences (filter (\<lambda>u. u \<notin> V) urls) \<and>
       file_content w' f = file_content w f @ concat (map snd (completed new)) \<and>
       (\<forall>x \<in> set new. snd x \<noteq> RequestFailure) \<and>
       (files w f \<noteq> None \<longrightarrow> files w' f \<noteq> None)"
proof (induction urls arbitrary: V w)
  case Nil
  then show ?case by auto
next
  case (Cons u rest)
  show ?case
  proof (cases "u \<in> V")
    case True
    with Cons.prems have "fetch_segments_loop E V rest f w = (Inr (), w')" by simp
    from Cons.IH[OF this] True show ?thesis by simp
  next
    case False
    obtain r w1 where fs: "fetch_segment E u f w = (r, w1)" by (cases "fetch_segment E u f w")
    with Cons.prems False have r: "r = Inr ()"
      and rest: "fetch_segments_loop E (insert u V) rest f w1 = (Inr (), w')"
      by (auto split: sum.splits)
    from fs r fetch_segment_attempts_success[of 5 E u f w w1] obtain k body where
      w1: "w1 = w\<lparr>http_log := http_log w @ replicate k (u, ChunkedEncodingError) @ [(u, Content body)],
              files := (files w)(f \<mapsto> file_content w f @ body)\<rparr>"
      by (auto simp: fetch_segment_def)
    from Cons.IH[OF rest] obtain new where
      new: "http_log w' = http_log w1 @ new"
        "map fst (completed new) = first_occurrences (filter (\<lambda>x. x \<notin> insert u V) rest)"
        "file_content w' f = file_content w1 f @ concat (map snd (completed new))"
        "\<forall>x \<in> set new. snd x \<noteq> RequestFailure"
        "files w1 f \<noteq> None \<longrightarrow> files w' f \<noteq> None"
      by blast
    let ?new = "replicate k (u, ChunkedEncodingError) @ [(u, Content body)] @ new"
    have 1: "http_log w' = http_log w @ ?new" using new(1) w1 by simp
    have c: "completed ?new = (u, body) # completed new"
      by (simp add: completed_append completed_failures)
    have 2: "map fst (completed ?new) = first_occurrences (filter (\<lambda>x. x \<notin> V) (u # rest))"
      using False new(2) unfolding c by (simp add: conj_commute)
    have 3: "file_content w' f = file_content w f @ concat (map snd (completed ?new))"
      using new(3) unfolding c w1 by (simp add: file_content_def)
    have 4: "\<forall>x \<in> set ?new. snd x \<noteq> RequestFailure" using new(4) by auto
    have 5: "files w f \<noteq> None \<longrightarrow> files w' f \<noteq> None" using new(5) w1 by simp
    from 1 2 3 4 5 show ?thesis by blast
  qed
qed


lemma fetch_segment_unfold:
  "fetch_segment E u f w = fetch_segment_attempts (Suc (Suc (Suc (Suc (Suc 0))))) E u f w"
  by (simp add: fetch_segment_def eval_nat_numeral)

lemmas fetch_eval = fetch_segment_unfold fetch_segment_attempts.simps(2) http_get_def
  write_file_def file_content_def

lemma completed_all_content:
  "\<forall>x \<in> set new. snd x \<noteq> RequestFailure \<and> snd x \<noteq> ChunkedEncodingError \<Longrightarrow>
   map fst (completed new) = map fst new"
proof (induction new rule: completed.induct)
  case 1
  then show ?case by simp
next
  case (2 u r xs)
  then show ?case by (cases r) auto
qed

lemma fetch_segments_loop_frame:
  "dirs (snd (fetch_segments_loop E V urls f w)) = dirs w \<and>
   processes (snd (fetch_segments_loop E V urls f w)) = processes w \<and>
   (\<forall>p. p \<noteq> f \<longrightarrow> files (snd (fetch_segments_loop E V urls f w)) p = files w p) \<and>
   (files w f \<noteq> None \<longrightarrow> files (snd (fetch_segments_loop E V urls f w)) f \<noteq> None)"
proof (induction urls arbitrary: V w)
  case Nil
  then show ?case by simp
next
  case (Cons u rest)
  show ?case
  proof (cases "u \<in> V")
    case True
    then show ?thesis using Cons.IH[of V w] by simp
  next
    case False
    obtain r w1 where fs: "fetch_segment E u f w = (r, w1)" by (cases "fetch_segment E u f w")
    then have w1: "w1 = snd (fetch_segment_attempts 5 E u f w)" by (simp add: fetch_segment_def)
    note fr = fetch_segment_attempts_frame[of 5 E u f w, folded w1]
    show ?thesis
    proof (cases r)
      case (Inl e)
      with False fs fr show ?thesis by simp
    next
      case (Inr x)
      with False fs have "fetch_segments_loop E V (u # rest) f w =
          fetch_segments_loop E (insert u V) rest f w1" by simp
      with fr Cons.IH[of "insert u V" w1] show ?thesis by simp
    qed
  qed
qed

lemma fetch_segments_frame:
  "dirs (snd (fetch_segments E urls f w)) = dirs w \<and>
   processes (snd (fetch_segments E urls f w)) = processes w \<and>
   (\<forall>p. p \<noteq> f \<longrightarrow> files (snd (fetch_segments E urls f w)) p = files w p)"
proof (cases "open_wb f w")
  case (Inl e)
  then show ?thesis by (simp add: fetch_segments_def)
next
  case (Inr w0)
  then have w0: "w0 = w\<lparr>files := (files w)(f \<mapsto> [])\<rparr>"
    by (simp add: open_wb_def split: if_splits)
  from Inr fetch_segments_loop_frame[of E "{}" urls f w0] show ?thesis
    by (simp add: fetch_segments_def w0)
qed

lemma fetch_segments_loop_reliable:
  assumes "\<forall>log u. \<exists>body. net E log u = Content body"
  shows "fst (fetch_segments_loop E V urls f w) = Inr ()"
proof (induction urls arbitrary: V w)
  case Nil
  then show ?case by simp
next
  case (Cons u rest)
  show ?case
  proof (cases "u \<in> V")
    case True
    then show ?thesis using Cons.IH[of V w] by simp
  next
    case False
    from assms obtain body where "net E (http_log w) u = Content body" by blast
    from fetch_step_content[OF this, of 4 f] have "fst (fetch_segment E u f w) = Inr ()"
      by (simp add: fetch_segment_def eval_nat_numeral)
    then obtain w1 where "fetch_segment E u f w = (Inr (), w1)"
      by (cases "fetch_segment E u f w") auto
    with False show ?thesis using Cons.IH[of "insert u V" w1] by simp
  qed
qed

text \<open>A path that is a directory cannot be opened: nothing is requested, nothing changes.\<close>

lemma fetch_segments_on_directory:
  "is_dir w f \<Longrightarrow> fetch_segments E urls f w = (Inl IsADirectoryError, w)"
  by (simp add: fetch_segments_def open_wb_def)

lemma fetch_segments_missing_directory:
  "\<not> is_dir w f \<Longrightarrow> \<not> is_dir w (butlast f) \<Longrightarrow>
   fetch_segments E urls f w = (Inl FileNotFoundError, w)"
  by (simp add: fetch_segments_def open_wb_def)

text \<open>
  Claim C3. When \<^verbatim>\<open>_fetch_segments\<close> returns, the exchanges that delivered a body are, in
  order, one for each distinct URL of the list in the order of first occurrence, and the file
  holds the concatenation of these bodies. When no attempt hit the transient error, these
  are all the requests made: one request per distinct URL. And \<^verbatim>\<open>_fetch_segments\<close> does return
  when the directory of the file exists, the path of the file is not itself a directory, and
  the server delivers a body on every request.
\<close>

theorem fetch_segments_once_per_url:
  "(fetch_segments E urls f w = (Inr (), w') \<longrightarrow>
      (\<exists>new. http_log w' = http_log w @ new \<and>
         map fst (completed new) = first_occurrences urls \<and>
         distinct (first_occurrences urls) \<and> set (first_occurrences urls) = set urls \<and>
         files w' f = Some (concat (map snd (completed new))) \<and>
         ((\<forall>x \<in> set new. snd x \<noteq> ChunkedEncodingError) \<longrightarrow>
            map fst new = first_occurrences urls))) \<and>
   (f \<noteq> [] \<and> f \<notin> set (dirs w) \<and> is_dir w (butlast f) \<and>
    (\<forall>log u. \<exists>body. net E log u = Content body) \<longrightarrow>
      fst (fetch_segments E urls f w) = Inr ())"
proof (intro conjI impI)
  assume ok: "fetch_segments E urls f w = (Inr (), w')"
  then obtain w0 where o: "open_wb f w = Inr w0"
    and l: "fetch_segments_loop E {} urls f w0 = (Inr (), w')"
    by (auto simp: fetch_segments_def split: sum.splits)
  from o have w0: "w0 = w\<lparr>files := (files w)(f \<mapsto> [])\<rparr>"
    by (simp add: open_wb_def split: if_splits)
  from fetch_segments_loop_success[OF l] obtain new where
    new: "http_log w' = http_log w0 @ new"
      "map fst (completed new) = first_occurrences (filter (\<lambda>u. u \<notin> {}) urls)"
      "file_content w' f = file_content w0 f @ concat (map snd (completed new))"
      "\<forall>x \<in> set new. snd x \<noteq> RequestFailure"
      "files w0 f \<noteq> None \<longrightarrow> files w' f \<noteq> None"
    by blast
  have 1: "http_log w' = http_log w @ new" using new(1) w0 by simp
  have 2: "map fst (completed new) = first_occurrences urls" using new(2) by simp
  from new(5) w0 obtain c where c: "files w' f = Some c" by auto
  with new(3) w0 have 3: "files w' f = Some (concat (map snd (completed new)))"
    by (simp add: file_content_def)
  have 4: "(\<forall>x \<in> set new. snd x \<noteq> ChunkedEncodingError) \<longrightarrow> map fst new = first_occurrences urls"
    using completed_all_content[of new] new(4) 2 by auto
  from 1 2 3 4 show "\<exists>new. http_log w' = http_log w @ new \<and>
         map fst (completed new) = first_occurrences urls \<and>
         distinct (first_occurrences urls) \<and> set (first_occurrences urls) = set urls \<and>
         files w' f = Some (concat (map snd (completed new))) \<and>
         ((\<forall>x \<in> set new. snd x \<noteq> ChunkedEncodingError) \<longrightarrow>
            map fst new = first_occurrences urls)"
    using distinct_first_occurrences[of urls] set_first_occurrences[of urls] by blast
next
  assume a: "f \<noteq> [] \<and> f \<notin> set (dirs w) \<and> is_dir w (butlast f) \<and>
      (\<forall>log u. \<exists>body. net E log u = Content body)"
  then have "open_wb f w = Inr (w\<lparr>files := (files w)(f \<mapsto> [])\<rparr>)"
    by (simp add: open_wb_def is_dir_def)
  with a fetch_segments_loop_reliable[of E "{}" urls f "w\<lparr>files := (files w)(f \<mapsto> [])\<rparr>"]
  show "fst (fetch_segments E urls f w) = Inr ()" by (simp add: fetch_segments_def)
qed

theorem fetch_segments_once_per_url_witness:
  "fst (fetch_segments (example_env echo_server) [''a'', ''b'', ''a''] [''temp'', ''x'']
          example_world) = Inr () \<and>
   fetch_segments (example_env echo_server) [''a'', ''b'', ''a''] [''temp'', ''x''] example_world =
     (Inr (), example_world\<lparr>files := [[''temp'', ''x''] \<mapsto> [97, 98]],
                http_log := [(''a'', Content [97]), (''b'', Content [98])]\<rparr>) \<and>
   first_occurrences [''a'', ''b'', ''a''] = [''a'', ''b''] \<and>
   completed [(''a'', Content [97]), (''b'', Content [98])] = [(''a'', [97]), (''b'', [98])] \<and>
   (\<exists>new. http_log (example_world\<lparr>files := [[''temp'', ''x''] \<mapsto> [97, 98]],
                http_log := [(''a'', Content [97]), (''b'', Content [98])]\<rparr>) =
            http_log example_world @ new \<and>
      map fst (completed new) = first_occurrences [''a'', ''b'', ''a''] \<and>
      distinct (first_occurrences [''a'', ''b'', ''a'']) \<and>
      set (first_occurrences [''a'', ''b'', ''a'']) = set [''a'', ''b'', ''a''] \<and>
      files (example_world\<lparr>files := [[''temp'', ''x''] \<mapsto> [97, 98]],
                http_log := [(''a'', Content [97]), (''b'', Content [98])]\<rparr>) [''temp'', ''x''] =
        Some (concat (map snd (completed new))) \<and>
      ((\<forall>x \<in> set new. snd x \<noteq> ChunkedEncodingError) \<longrightarrow>
         map fst new = first_occurrences [''a'', ''b'', ''a'']))"
proof -
  let ?w' = "example_world\<lparr>files := [[''temp'', ''x''] \<mapsto> [97, 98]],
                http_log := [(''a'', Content [97]), (''b'', Content [98])]\<rparr>"
  have h: "fetch_segments (example_env echo_server) [''a'', ''b'', ''a''] [''temp'', ''x'']
      example_world = (Inr (), ?w')"
    by (simp add: fetch_segments_def open_wb_def is_dir_def example_world_def example_env_def
        echo_server_def fetch_eval)
  have r: "[''temp'', ''x''] \<noteq> [] \<and> [''temp'', ''x''] \<notin> set (dirs example_world) \<and>
      is_dir example_world (butlast [''temp'', ''x'']) \<and>
      (\<forall>log u. \<exists>body. net (example_env echo_server) log u = Content body)"
    by (simp add: is_dir_def example_world_def example_env_def echo_server_def)
  have f: "first_occurrences [''a'', ''b'', ''a''] = [''a'', ''b'']" by simp
  have c: "completed [(''a'', Content [97]), (''b'', Content [98])] = [(''a'', [97]), (''b'', [98])]"
    by simp
  note t = fetch_segments_once_per_url[of "example_env echo_server" "[''a'', ''b'', ''a'']"
      "[''temp'', ''x'']" example_world ?w']
  note t1 = t[THEN conjunct1, THEN mp, OF h]
  note t2 = t[THEN conjunct2, THEN mp, OF r]
  show ?thesis
    by (intro conjI t2 h f c t1)
qed

text \<open>
  Claim C4. \<^verbatim>\<open>_fetch_segment\<close> makes at most five requests, all for its URL. When the first
  four end in the transient error and the fifth delivers a body, it returns, and the body has
  been appended to the file once. When all five end in the transient error, it raises
  \<^verbatim>\<open>SegmentDownloadError\<close> with the URL and leaves the file as it was; the loop of
  \<^verbatim>\<open>_fetch_segments\<close> then stops with this error, whatever URLs follow, having made no request
  after the five.
\<close>

theorem fetch_segment_five_attempts:
  "(\<exists>new. http_log (snd (fetch_segment E u f w)) = http_log w @ new \<and>
       length new \<le> 5 \<and> (\<forall>x \<in> set new. fst x = u)) \<and>
   ((\<forall>i < 4. net E (http_log w @ replicate i (u, ChunkedEncodingError)) u = ChunkedEncodingError) \<and>
    net E (http_log w @ replicate 4 (u, ChunkedEncodingError)) u = Content body \<longrightarrow>
      fetch_segment E u f w =
        (Inr (),
         w\<lparr>http_log := http_log w @ replicate 4 (u, ChunkedEncodingError) @ [(u, Content body)],
           files := (files w)(f \<mapsto> file_content w f @ body)\<rparr>)) \<and>
   ((\<forall>i < 5. net E (http_log w @ replicate i (u, ChunkedEncodingError)) u = ChunkedEncodingError) \<longrightarrow>
      fetch_segment E u f w =
        (Inl (SegmentDownloadError u),
         w\<lparr>http_log := http_log w @ replicate 5 (u, ChunkedEncodingError)\<rparr>) \<and>
      (u \<notin> V \<longrightarrow>
         fetch_segments_loop E V (u # rest) f w =
           (Inl (SegmentDownloadError u),
            w\<lparr>http_log := http_log w @ replicate 5 (u, ChunkedEncodingError)\<rparr>)))"
proof (intro conjI impI)
  show "\<exists>new. http_log (snd (fetch_segment E u f w)) = http_log w @ new \<and>
       length new \<le> 5 \<and> (\<forall>x \<in> set new. fst x = u)"
    using fetch_segment_attempts_frame[of 5 E u f w] by (simp add: fetch_segment_def)
next
  assume "(\<forall>i < 4. net E (http_log w @ replicate i (u, ChunkedEncodingError)) u = ChunkedEncodingError) \<and>
    net E (http_log w @ replicate 4 (u, ChunkedEncodingError)) u = Content body"
  then show "fetch_segment E u f w =
        (Inr (),
         w\<lparr>http_log := http_log w @ replicate 4 (u, ChunkedEncodingError) @ [(u, Content body)],
           files := (files w)(f \<mapsto> file_content w f @ body)\<rparr>)"
    unfolding fetch_segment_def
    by (intro fetch_segment_attempts_then_success) simp_all
next
  assume a: "\<forall>i < 5. net E (http_log w @ replicate i (u, ChunkedEncodingError)) u = ChunkedEncodingError"
  then show f: "fetch_segment E u f w =
        (Inl (SegmentDownloadError u),
         w\<lparr>http_log := http_log w @ replicate 5 (u, ChunkedEncodingError)\<rparr>)"
    unfolding fetch_segment_def by (rule fetch_segment_attempts_all_fail)
  assume "u \<notin> V"
  with f show "fetch_segments_loop E V (u # rest) f w =
           (Inl (SegmentDownloadError u),
            w\<lparr>http_log := http_log w @ replicate 5 (u, ChunkedEncodingError)\<rparr>)"
    by simp
qed

theorem fetch_segment_five_attempts_witness:
  "net (example_env flaky_server)
     (http_log example_world @ replicate 3 (''u'', ChunkedEncodingError)) ''u'' =
     ChunkedEncodingError \<and>
   net (example_env flaky_server)
     (http_log example_world @ replicate 4 (''u'', ChunkedEncodingError)) ''u'' = Content [7, 8] \<and>
   fetch_segment (example_env flaky_server) ''u'' [''temp'', ''x''] example_world =
     (Inr (),
      example_world\<lparr>http_log := replicate 4 (''u'', ChunkedEncodingError) @ [(''u'', Content [7, 8])],
        files := [[''temp'', ''x''] \<mapsto> [7, 8]]\<rparr>) \<and>
   net (example_env dead_server)
     (http_log example_world @ replicate 4 (''u'', ChunkedEncodingError)) ''u'' =
     ChunkedEncodingError \<and>
   fetch_segments_loop (example_env dead_server) {} [''u'', ''v'', ''w''] [''temp'', ''x'']
       example_world =
     (Inl (SegmentDownloadError ''u''),
      example_world\<lparr>http_log := replicate 5 (''u'', ChunkedEncodingError)\<rparr>)"
proof -
  have a: "(\<forall>i < 4. net (example_env flaky_server)
        (http_log example_world @ replicate i (''u'', ChunkedEncodingError)) ''u'' =
      ChunkedEncodingError) \<and>
   net (example_env flaky_server)
     (http_log example_world @ replicate 4 (''u'', ChunkedEncodingError)) ''u'' = Content [7, 8]"
    by (simp add: example_env_def flaky_server_def example_world_def)
  have b: "\<forall>i < 5. net (example_env dead_server)
        (http_log example_world @ replicate i (''u'', ChunkedEncodingError)) ''u'' =
      ChunkedEncodingError"
    by (simp add: example_env_def dead_server_def)
  note t = fetch_segment_five_attempts[of "example_env flaky_server" "''u''" "[''temp'', ''x'']"
      example_world "[7, 8]" "{}" "[]"]
  from t a have 1: "fetch_segment (example_env flaky_server) ''u'' [''temp'', ''x''] example_world =
     (Inr (),
      example_world\<lparr>http_log := http_log example_world @
          replicate 4 (''u'', ChunkedEncodingError) @ [(''u'', Content [7, 8])],
        files := (files example_world)([''temp'', ''x''] \<mapsto>
          file_content example_world [''temp'', ''x''] @ [7, 8])\<rparr>)"
    by blast
  note t2 = fetch_segment_five_attempts[of "example_env dead_server" "''u''" "[''temp'', ''x'']"
      example_world "[]" "{}" "[''v'', ''w'']"]
  from t2 b have 2: "fetch_segments_loop (example_env dead_server) {} [''u'', ''v'', ''w'']
       [''temp'', ''x''] example_world =
     (Inl (SegmentDownloadError ''u''),
      example_world\<lparr>http_log := http_log example_world @
          replicate 5 (''u'', ChunkedEncodingError)\<rparr>)"
    by blast
  from a b 1 2 show ?thesis
    by (simp add: example_world_def file_content_def)
qed

section \<open>Properties of \<^verbatim>\<open>download\<close>\<close>

subsection \<open>The temporary files\<close>

lemma py_suffix_audio: "py_suffix (v @ ''_Audio.aac'') = ''.aac''"
  by (simp add: py_suffix_def)

lemma py_suffix_video: "py_suffix (v @ ''_Video.mp4'') = ''.mp4''"
  by (simp add: py_suffix_def)

lemma tmp_path_audio:
  "tmp_path d \<lparr>url = us, type = ''Audio'', suffix = ''.aac''\<rparr> = audio_tmp_path d"
  by (simp add: tmp_path_def append_to_name_def audio_tmp_path_def)

lemma enc_path_audio:
  "enc_path d \<lparr>url = us, type = ''Audio'', suffix = ''.aac''\<rparr> = Inr (audio_enc_path d)"
  by (simp add: enc_path_def tmp_path_audio audio_tmp_path_def audio_enc_path_def with_suffix_def
      py_suffix_audio)

lemma tmp_path_video:
  "tmp_path d \<lparr>url = us, type = ''Video'', suffix = ''.mp4''\<rparr> =
     temp_path d @ [video_id d @ ''_Video.mp4'']"
  by (simp add: tmp_path_def append_to_name_def)

lemma enc_path_video:
  "enc_path d \<lparr>url = us, type = ''Video'', suffix = ''.mp4''\<rparr> =
     Inr (temp_path d @ [video_id d @ ''_Video.mp4.enc''])"
  by (simp add: enc_path_def tmp_path_video with_suffix_def py_suffix_video)

lemma inside_audio_tmp: "inside (temp_path d) (audio_tmp_path d)"
  by (simp add: inside_def audio_tmp_path_def)

subsection \<open>What each step leaves untouched\<close>

lemma fetch_elements_frame:
  "dirs (snd (fetch_elements E d key els w)) = dirs w \<and>
   processes (snd (fetch_elements E d key els w)) = processes w"
proof (induction els arbitrary: w)
  case Nil
  then show ?case by simp
next
  case (Cons el els)
  show ?case
  proof (cases "enc_path d el")
    case (Inl e)
    then show ?thesis by simp
  next
    case (Inr enc)
    let ?f = "if truthy_str key then enc else tmp_path d el"
    obtain r w1 where fs: "fetch_segments E (url el) ?f w = (r, w1)"
      by (cases "fetch_segments E (url el) ?f w")
    with fetch_segments_frame[of E "url el" ?f w]
    have fr: "dirs w1 = dirs w \<and> processes w1 = processes w" by simp
    show ?thesis
    proof (cases r)
      case (Inl e)
      with Inr fs fr show ?thesis by simp
    next
      case (Inr x)
      with \<open>enc_path d el = Inr enc\<close> fs have
        "fetch_elements E d key (el # els) w = fetch_elements E d key els w1" by simp
      with fr Cons.IH[of w1] show ?thesis by simp
    qed
  qed
qed

lemma decrypt_video_frame:
  "dirs (snd (decrypt_video E s t k w)) = dirs w \<and>
   filter is_ffmpeg (processes (snd (decrypt_video E s t k w))) = filter is_ffmpeg (processes w)"
  by (simp add: decrypt_video_def Let_def split: option.splits)

lemma decrypt_elements_frame:
  "dirs (snd (decrypt_elements E d k els w)) = dirs w \<and>
   filter is_ffmpeg (processes (snd (decrypt_elements E d k els w))) =
     filter is_ffmpeg (processes w)"
proof (induction els arbitrary: w)
  case Nil
  then show ?case by simp
next
  case (Cons el els)
  show ?case
  proof (cases "enc_path d el")
    case (Inl e)
    then show ?thesis by simp
  next
    case (Inr enc)
    obtain r w1 where dv: "decrypt_video E enc (tmp_path d el) k w = (r, w1)"
      by (cases "decrypt_video E enc (tmp_path d el) k w")
    with decrypt_video_frame[of E enc "tmp_path d el" k w]
    have fr: "dirs w1 = dirs w \<and> filter is_ffmpeg (processes w1) = filter is_ffmpeg (processes w)"
      by simp
    show ?thesis
    proof (cases r)
      case (Inl e)
      with Inr dv fr show ?thesis by simp
    next
      case (Inr x)
      with \<open>enc_path d el = Inr enc\<close> dv have
        "decrypt_elements E d k (el # els) w = decrypt_elements E d k els w1" by simp
      with fr Cons.IH[of w1] show ?thesis by simp
    qed
  qed
qed

lemma move_frame:
  "dirs (snd (move src dst w)) = dirs w \<and> processes (snd (move src dst w)) = processes w"
  by (simp add: move_def split: option.splits)

lemma merge_tracks_frame: "dirs (snd (merge_tracks E srcs dst w)) = dirs w"
  by (simp add: merge_tracks_def Let_def split: option.splits)

lemma finish_dirs: "set (dirs w) \<subseteq> set (dirs (snd (finish E d filepath els w)))"
  by (auto simp: finish_def Let_def mkdir_parents_def move_frame merge_tracks_frame
      split: sum.splits)


lemma run_elements_dirs: "set (dirs w) \<subseteq> set (dirs (snd (run_elements E d filepath key els w)))"
proof -
  obtain r1 w1 where f: "fetch_elements E d key els w = (r1, w1)"
    by (cases "fetch_elements E d key els w")
  with fetch_elements_frame[of E d key els w] have d1: "dirs w1 = dirs w" by simp
  show ?thesis
  proof (cases r1)
    case (Inl e)
    with f d1 show ?thesis by (simp add: run_elements_def)
  next
    case (Inr x)
    let ?dec = "if truthy_str key then decrypt_elements E d (the key) els w1 else (Inr (), w1)"
    obtain r2 w2 where g: "?dec = (r2, w2)" by (cases ?dec)
    have d2: "dirs w2 = dirs w"
      using g d1 decrypt_elements_frame[of E d "the key" els w1] by (auto split: if_splits)
    show ?thesis
    proof (cases r2)
      case (Inl e)
      with Inr f g d2 show ?thesis by (simp add: run_elements_def)
    next
      case r2: (Inr y)
      with Inr f g have "run_elements E d filepath key els w = finish E d filepath els w2"
        by (simp add: run_elements_def)
      with finish_dirs[of w2 E d filepath els] d2 show ?thesis by simp
    qed
  qed
qed


lemma download_dirs: "set (dirs w) \<subseteq> set (dirs (snd (download E d filepath resolution w)))"
  using run_elements_dirs[of w E d filepath]
  by (simp add: download_def split: sum.splits)


subsection \<open>The example runs\<close>

lemma example_key:
  "get_license_key (license_post (example_env s)) example_mpd = Inr (Some ''717765727479'')"
  by (simp add: get_license_key_def example_env_def example_mpd_def example_period_def
      example_audio_set_def request_kid_def hex_digit_value_def py_isspace_def b64_char_def
      b64_alphabet_def example_response_def response_key_def getitem_key_def getitem_0_def
      add_str_def b64decode_def b64_value_def bytes_hex_def hex_char_def)

lemma clear_key: "get_license_key (license_post (example_env s)) clear_mpd = Inr None"
  by (simp add: get_license_key_def clear_mpd_def clear_audio_set_def example_audio_set_def)

lemmas example_manifest_defs = example_mpd_def clear_mpd_def clear_audio_set_def
  example_period_def example_audio_set_def example_video_set_def example_audio_def
  example_video_def example_segments_def

lemmas urls_eval = track_urls_def get_segments_urls_def select_representation_def
  representation_urls_def media_fragments_def truthy_int_def resolution_of_def



lemma clear_audio_urls:
  "track_urls clear_mpd (Some 640, Some 360) ''audio/mp4'' =
     Inr [''a/init.mp4'', ''a/1.m4s'', ''a/1.m4s'']"
  by (simp add: example_manifest_defs urls_eval)

lemma clear_video_urls:
  "track_urls clear_mpd (Some 640, Some 360) ''video/mp4'' =
     Inr [''v360/init.mp4'', ''v360/1.m4s'', ''v360/1.m4s'']"
  by (simp add: example_manifest_defs urls_eval)

lemmas run_eval = run_elements_def enc_path_audio tmp_path_audio enc_path_video tmp_path_video
  audio_tmp_path_def audio_enc_path_def truthy_str_def fetch_segments_def open_wb_def is_dir_def
  fetch_eval decrypt_video_def finish_def with_suffix_def py_suffix_def mkdir_parents_def
  parents_and_self_def move_def merge_tracks_def Let_def


lemma example_failed_run:
  "download (example_env dead_server) (example_downloader clear_mpd False)
       [''out'', ''clip.mp4''] (Some (Some 640, Some 360)) example_world =
     (Inl (SegmentDownloadError ''a/init.mp4''),
      example_world\<lparr>files := [[''temp'', ''vid_Audio.aac''] \<mapsto> []],
        http_log := replicate 5 (''a/init.mp4'', ChunkedEncodingError)\<rparr>)"
proof -
  have "download (example_env dead_server) (example_downloader clear_mpd False)
          [''out'', ''clip.mp4''] (Some (Some 640, Some 360)) example_world =
        run_elements (example_env dead_server) (example_downloader clear_mpd False)
          [''out'', ''clip.mp4''] None
          [\<lparr>url = [''a/init.mp4'', ''a/1.m4s'', ''a/1.m4s''], type = ''Audio'', suffix = ''.aac''\<rparr>,
           \<lparr>url = [''v360/init.mp4'', ''v360/1.m4s'', ''v360/1.m4s''], type = ''Video'',
             suffix = ''.mp4''\<rparr>]
          example_world"
    by (simp add: download_def example_downloader_def clear_key clear_audio_urls
        clear_video_urls)
  then show ?thesis
    by (simp add: run_eval example_downloader_def example_world_def example_env_def
        dead_server_def eval_nat_numeral)
qed

subsection \<open>The resolution is checked before any track is fetched\<close>

lemma get_segments_urls_invalid:
  assumes "periods m = p # ps"
    and "list_all well_formed_adaptation_set (adaptation_sets p)"
    and "a \<in> set (adaptation_sets p)"
    and "carries_height a"
    and "res \<notin> resolution_of ` set (representations a)"
  shows "get_segments_urls m res = Inl InvalidResolution"
proof -
  from assms(3-5) have "\<exists>a \<in> set (adaptation_sets p).
      carries_height a \<and> res \<notin> resolution_of ` set (representations a)" by blast
  with get_segments_urls_loop_spec[OF assms(2), of res Map.empty] assms(1) show ?thesis
    by (simp add: get_segments_urls_def)
qed

text \<open>
  Claim C10. In audio-only mode (as in the other mode): when the key has been resolved and
  the requested resolution is that of no representation of a height-carrying adaptation set of
  the first period (a video adaptation set), \<^verbatim>\<open>download\<close> raises \<^verbatim>\<open>InvalidResolution\<close>, and it
  does so before anything is fetched or written: the world is as it was.
\<close>

theorem audio_only_download_checks_resolution:
  assumes "audio_only d"
    and "periods (mpd_master d) = p # ps"
    and "list_all well_formed_adaptation_set (adaptation_sets p)"
    and "a \<in> set (adaptation_sets p)"
    and "carries_height a"
    and "res \<notin> resolution_of ` set (representations a)"
    and "get_license_key (license_post E) (mpd_master d) = Inr key"
  shows "download E d filepath (Some res) w = (Inl InvalidResolution, w)"
proof -
  have "get_segments_urls (mpd_master d) res = Inl InvalidResolution"
    using assms(2-6) by (rule get_segments_urls_invalid)
  then have "track_urls (mpd_master d) res ''audio/mp4'' = Inl InvalidResolution"
    by (simp add: track_urls_def)
  with assms(7) show ?thesis by (simp add: download_def)
qed

theorem audio_only_download_checks_resolution_witness:
  "audio_only (example_downloader example_mpd True) \<and>
   periods (mpd_master (example_downloader example_mpd True)) = example_period # [] \<and>
   list_all well_formed_adaptation_set (adaptation_sets example_period) \<and>
   example_video_set \<in> set (adaptation_sets example_period) \<and>
   carries_height example_video_set \<and>
   (Some 640, Some 480) \<notin> resolution_of ` set (representations example_video_set) \<and>
   get_license_key (license_post (example_env echo_server))
     (mpd_master (example_downloader example_mpd True)) = Inr (Some ''717765727479'') \<and>
   download (example_env echo_server) (example_downloader example_mpd True) [''out'', ''clip.mp4'']
     (Some (Some 640, Some 480)) example_world = (Inl InvalidResolution, example_world)"
proof -
  note defs = example_period_def example_audio_set_def example_video_set_def
    example_audio_def example_video_def example_segments_def
  have 1: "audio_only (example_downloader example_mpd True)"
    by (simp add: example_downloader_def)
  have 2: "periods (mpd_master (example_downloader example_mpd True)) = example_period # []"
    by (simp add: example_downloader_def example_mpd_def)
  have 3: "list_all well_formed_adaptation_set (adaptation_sets example_period)"
    by (simp add: defs well_formed_adaptation_set_def well_formed_representation_def)
  have 4: "example_video_set \<in> set (adaptation_sets example_period)"
    by (simp add: example_period_def)
  have 5: "carries_height example_video_set"
    by (simp add: defs carries_height_def truthy_int_def)
  have 6: "(Some 640, Some 480) \<notin> resolution_of ` set (representations example_video_set)"
    by (simp add: defs resolution_of_def)
  have 7: "get_license_key (license_post (example_env echo_server))
     (mpd_master (example_downloader example_mpd True)) = Inr (Some ''717765727479'')"
    by (simp add: example_downloader_def example_key)
  note t = audio_only_download_checks_resolution[OF 1 2 3 4 5 6 7,
      of "[''out'', ''clip.mp4'']" example_world]
  show ?thesis by (intro conjI 1 2 3 4 5 6 7 t)
qed

subsection \<open>Audio-only mode\<close>




subsection \<open>The temporary directory\<close>

lemma self_in_parents_and_self:
  assumes "p \<noteq> []"
  shows "p \<in> set (parents_and_self p)"
  unfolding parents_and_self_def set_map image_iff
proof (rule bexI[of _ "length p"])
  show "p = take (length p) p" by simp
  show "length p \<in> set [1..<Suc (length p)]" using assms by (cases p) auto
qed

text \<open>\<^verbatim>\<open>__init__\<close> leaves the temporary directory in place, whether the manifest arrives or not.\<close>

lemma init_creates_workspace:
  "temp_dir \<noteq> [] \<Longrightarrow> temp_dir \<in> set (dirs (snd (init E vid temp_dir audio w)))"
  using self_in_parents_and_self[of temp_dir]
  by (simp add: init_def Let_def mkdir_parents_def split: sum.splits)

lemma del_removes_workspace:
  assumes "temp_path d \<in> set (dirs w)" and "inside (temp_path d) p"
  shows "files (del d w) p = None \<and> p \<notin> set (dirs (del d w))"
  using assms by (simp add: del_def rmtree_def)

text \<open>
  Claim C8, at a concrete run: the server answers every request with the transient error, so
  \<^verbatim>\<open>download\<close> raises \<^verbatim>\<open>SegmentDownloadError\<close> for the first audio segment. In the world in which
  the error reaches the caller of \<^verbatim>\<open>download\<close> the temporary directory is still there, and so is
  the audio file that was opened in it.
\<close>

theorem failed_download_leaves_workspace:
  "fst failed_run = Inl (SegmentDownloadError ''a/init.mp4'') \<and>
   temp_path (example_downloader clear_mpd False) \<in> set (dirs (snd failed_run)) \<and>
   inside (temp_path (example_downloader clear_mpd False)) [''temp'', ''vid_Audio.aac''] \<and>
   files (snd failed_run) [''temp'', ''vid_Audio.aac''] = Some []"
  unfolding failed_run_def example_failed_run
  by (simp add: example_downloader_def example_world_def inside_def)

text \<open>
  Claim C8, as the code has it: \<^verbatim>\<open>download\<close> never removes the temporary directory, on no
  exit path; the directory and everything in it are removed when the object is destroyed,
  by \<^verbatim>\<open>__del__\<close>, after a normal and after a failed run alike.
\<close>

theorem workspace_removed_on_destruction:
  assumes "temp_path d \<in> set (dirs w)"
  shows "temp_path d \<in> set (dirs (snd (download E d filepath resolution w))) \<and>
         (\<forall>p. inside (temp_path d) p \<longrightarrow>
            files (del d (snd (download E d filepath resolution w))) p = None \<and>
            p \<notin> set (dirs (del d (snd (download E d filepath resolution w)))))"
proof -
  from assms download_dirs[of w E d filepath resolution]
  have still: "temp_path d \<in> set (dirs (snd (download E d filepath resolution w)))" by blast
  with del_removes_workspace[of d "snd (download E d filepath resolution w)"] show ?thesis
    by blast
qed

theorem workspace_removed_on_destruction_witness:
  "temp_path (example_downloader clear_mpd False) \<in> set (dirs example_world) \<and>
   fst failed_run = Inl (SegmentDownloadError ''a/init.mp4'') \<and>
   temp_path (example_downloader clear_mpd False) \<in> set (dirs (snd failed_run)) \<and>
   inside (temp_path (example_downloader clear_mpd False)) [''temp'', ''vid_Audio.aac''] \<and>
   files (del (example_downloader clear_mpd False) (snd failed_run)) [''temp'', ''vid_Audio.aac''] =
     None \<and>
   [''temp'', ''vid_Audio.aac'']
     \<notin> set (dirs (del (example_downloader clear_mpd False) (snd failed_run)))"
proof -
  let ?d = "example_downloader clear_mpd False"
  have a: "temp_path ?d \<in> set (dirs example_world)"
    by (simp add: example_downloader_def example_world_def)
  have f: "fst failed_run = Inl (SegmentDownloadError ''a/init.mp4'')"
    by (simp add: failed_run_def example_failed_run)
  have i: "inside (temp_path ?d) [''temp'', ''vid_Audio.aac'']"
    by (simp add: inside_def example_downloader_def)
  note t = workspace_removed_on_destruction[OF a, of "example_env dead_server"
      "[''out'', ''clip.mp4'']" "Some (Some 640, Some 360)", folded failed_run_def]
  from t have 1: "temp_path ?d \<in> set (dirs (snd failed_run))" by blast
  from t i have 2: "files (del ?d (snd failed_run)) [''temp'', ''vid_Audio.aac''] = None"
    and 3: "[''temp'', ''vid_Audio.aac''] \<notin> set (dirs (del ?d (snd failed_run)))"
    by blast+
  show ?thesis by (intro conjI a f 1 i 2 3)
qed

end
